theory Spec2Isabelle
  imports Main
begin

section \<open>Graph resolution and model building of \<open>GraphAutoModel\<close>\<close>

text \<open>
  The development embeds \<^verbatim>\<open>autokeras/auto/auto_model.py\<close>: the methods
  \<^verbatim>\<open>_add_node\<close>, \<^verbatim>\<open>_search_network\<close>, \<^verbatim>\<open>_add_hypermodel\<close>,
  \<^verbatim>\<open>_build_network\<close>, \<^verbatim>\<open>build\<close>, \<^verbatim>\<open>_infer_metrics\<close> and
  \<^verbatim>\<open>_infer_loss\<close> of class \<^verbatim>\<open>GraphAutoModel\<close>.
\<close>

subsection \<open>Objects, references and the store\<close>

text \<open>
  \<^verbatim>\<open>Node\<close> and \<^verbatim>\<open>HyperModel\<close> objects are compared and hashed by identity, so
  an object is represented by its reference, a natural number. The attributes the
  methods read are kept field by field: each attribute is a function from references to
  values. Resolution never writes the attributes collected in \<open>topology\<close>; the one
  attribute it writes, \<^verbatim>\<open>HyperModel.output_shape\<close>, lives in the mutable state.
\<close>

type_synonym node = nat
type_synonym hypermodel = nat
type_synonym shape = "nat list option"

record topology =
  out_hypermodels :: "node \<Rightarrow> hypermodel list"   \<comment> \<open>\<^verbatim>\<open>Node.out_hypermodels\<close>\<close>
  in_hypermodels :: "node \<Rightarrow> hypermodel list"    \<comment> \<open>\<^verbatim>\<open>Node.in_hypermodels\<close>\<close>
  node_shape :: "node \<Rightarrow> shape"                  \<comment> \<open>\<^verbatim>\<open>Node.shape\<close>\<close>
  hm_inputs :: "hypermodel \<Rightarrow> node list"         \<comment> \<open>\<^verbatim>\<open>HyperModel.inputs\<close>\<close>
  hm_outputs :: "hypermodel \<Rightarrow> node list"        \<comment> \<open>\<^verbatim>\<open>HyperModel.outputs\<close>\<close>
  hm_name :: "hypermodel \<Rightarrow> string"              \<comment> \<open>\<^verbatim>\<open>HyperModel.name\<close>\<close>
  is_ClassificationHead :: "hypermodel \<Rightarrow> bool"  \<comment> \<open>\<^verbatim>\<open>isinstance(h, ClassificationHead)\<close>\<close>

text \<open>
  The fields of a \<^verbatim>\<open>GraphAutoModel\<close> instance that resolution and building use.
  A Python \<^verbatim>\<open>dict\<close> keeps its keys in insertion order, so both dictionaries are
  association lists in insertion order.
\<close>

record graph_auto_model =
  inputs :: "node list"
  outputs :: "node list"
  node_to_id :: "(node \<times> nat) list"
  nodes :: "node list"
  hypermodel_to_id :: "(hypermodel \<times> nat) list"
  hypermodels :: "hypermodel list"
  output_shape :: "hypermodel \<Rightarrow> shape"         \<comment> \<open>\<^verbatim>\<open>HyperModel.output_shape\<close>\<close>

datatype error = ValueError string | IndexError | KeyError

text \<open>
  A computation that needs fuel returns \<open>None\<close> when the fuel runs out,
  \<open>Some (Inl e)\<close> when the code raises \<open>e\<close> and \<open>Some (Inr s)\<close> when it returns.
\<close>

type_synonym 'a outcome = "(error + 'a) option"

text \<open>A \<^verbatim>\<open>for\<close> loop whose body may raise: the first exception leaves the loop.\<close>

fun for_each :: "('a \<Rightarrow> 's \<Rightarrow> 's outcome) \<Rightarrow> 'a list \<Rightarrow> 's \<Rightarrow> 's outcome" where
  "for_each body [] s = Some (Inr s)"
| "for_each body (x # xs) s =
     (case body x s of
        None \<Rightarrow> None
      | Some (Inl e) \<Rightarrow> Some (Inl e)
      | Some (Inr s') \<Rightarrow> for_each body xs s')"

subsection \<open>Dictionaries\<close>

definition has_key :: "('k \<times> 'v) list \<Rightarrow> 'k \<Rightarrow> bool" where
  "has_key d k = (k \<in> fst ` set d)"

text \<open>\<^verbatim>\<open>d[k] = v\<close>: an existing key keeps its position, a new key goes last.\<close>

fun dict_set :: "'k \<Rightarrow> 'v \<Rightarrow> ('k \<times> 'v) list \<Rightarrow> ('k \<times> 'v) list" where
  "dict_set k v [] = [(k, v)]"
| "dict_set k v (p # ps) = (if fst p = k then (k, v) # ps else p # dict_set k v ps)"

definition keys :: "('k \<times> 'v) list \<Rightarrow> 'k set" where
  "keys d = fst ` set d"

subsection \<open>\<^verbatim>\<open>_add_node\<close>\<close>

definition add_node :: "node \<Rightarrow> (node \<times> nat) list \<Rightarrow> (node \<times> nat) list" where
  "add_node input_node d =
     (if \<not> has_key d input_node then dict_set input_node (length d) d else d)"

subsection \<open>\<^verbatim>\<open>_search_network\<close>\<close>

text \<open>
  The two sets are the mutable arguments \<^verbatim>\<open>in_stack_nodes\<close> and
  \<^verbatim>\<open>visited_nodes\<close>; \<open>ids\<close> is \<^verbatim>\<open>self.node_to_id\<close>, the only field of
  \<^verbatim>\<open>self\<close> the search touches. The recursion is bounded by fuel, one unit per
  nested call; the interpreter's own recursion limit is not part of the model.
\<close>

record search_state =
  in_stack_nodes :: "node set"
  visited_nodes :: "node set"
  ids :: "(node \<times> nat) list"

definition cycle_error :: error where
  "cycle_error = ValueError ''The network has a cycle.''"

text \<open>
  The body of the inner loop \<^verbatim>\<open>for output_node in hypermodel.outputs\<close>; the flag
  is the local \<^verbatim>\<open>outputs_reached\<close>, and \<open>rec\<close> is the recursive call.
\<close>

definition search_output ::
  "(node \<Rightarrow> search_state \<Rightarrow> search_state outcome) \<Rightarrow> node \<Rightarrow>
     bool \<times> search_state \<Rightarrow> (bool \<times> search_state) outcome" where
  "search_output rec output_node = (\<lambda>(outputs_reached, s).
     if output_node \<in> in_stack_nodes s then Some (Inl cycle_error)
     else
       (case (if output_node \<notin> visited_nodes s then rec output_node s else Some (Inr s)) of
          None \<Rightarrow> None
        | Some (Inl e) \<Rightarrow> Some (Inl e)
        | Some (Inr s') \<Rightarrow>
            Some (Inr (if has_key (ids s') output_node then True else outputs_reached, s'))))"

text \<open>
  \<^verbatim>\<open>set.remove\<close> raises \<^verbatim>\<open>KeyError\<close> when the element is absent.
\<close>

definition set_remove :: "node \<Rightarrow> node set \<Rightarrow> error + node set" where
  "set_remove x A = (if x \<in> A then Inr (A - {x}) else Inl KeyError)"

primrec search_network ::
  "nat \<Rightarrow> topology \<Rightarrow> node list \<Rightarrow> node \<Rightarrow> search_state \<Rightarrow> search_state outcome" where
  "search_network 0 T outs input_node st = None"
| "search_network (Suc fuel) T outs input_node st =
     (let st1 = st\<lparr>visited_nodes := insert input_node (visited_nodes st),
                    in_stack_nodes := insert input_node (in_stack_nodes st)\<rparr>;
          outputs_reached = (input_node \<in> set outs)
      in case for_each
                (\<lambda>hypermodel. for_each (search_output (search_network fuel T outs))
                                 (hm_outputs T hypermodel))
                (out_hypermodels T input_node) (outputs_reached, st1) of
           None \<Rightarrow> None
         | Some (Inl e) \<Rightarrow> Some (Inl e)
         | Some (Inr (outputs_reached', s)) \<Rightarrow>
             (let s2 = (if outputs_reached' then s\<lparr>ids := add_node input_node (ids s)\<rparr> else s)
              in case set_remove input_node (in_stack_nodes s2) of
                   Inl e \<Rightarrow> Some (Inl e)
                 | Inr stack \<Rightarrow> Some (Inr (s2\<lparr>in_stack_nodes := stack\<rparr>))))"

text \<open>
  The first loop of \<^verbatim>\<open>_build_network\<close>: one search per declared input, each with
  two fresh sets, all sharing \<^verbatim>\<open>self.node_to_id\<close>.
\<close>

definition search_input ::
  "nat \<Rightarrow> topology \<Rightarrow> node list \<Rightarrow> node \<Rightarrow> (node \<times> nat) list \<Rightarrow> (node \<times> nat) list outcome" where
  "search_input fuel T outs input_node d =
     (case search_network fuel T outs input_node
             \<lparr>in_stack_nodes = {}, visited_nodes = {}, ids = d\<rparr> of
        None \<Rightarrow> None
      | Some (Inl e) \<Rightarrow> Some (Inl e)
      | Some (Inr s) \<Rightarrow> Some (Inr (ids s)))"

definition search_inputs ::
  "nat \<Rightarrow> topology \<Rightarrow> node list \<Rightarrow> node list \<Rightarrow> (node \<times> nat) list outcome" where
  "search_inputs fuel T ins outs = for_each (search_input fuel T outs) ins []"

subsection \<open>\<^verbatim>\<open>_add_hypermodel\<close>\<close>

definition missing_input_error :: "string \<Rightarrow> error" where
  "missing_input_error name =
     ValueError (''A required input is missing for HyperModel '' @ name @ ''. '')"

definition add_hypermodel ::
  "topology \<Rightarrow> hypermodel \<Rightarrow> graph_auto_model \<Rightarrow> error + graph_auto_model" where
  "add_hypermodel T hypermodel self =
     (let self1 =
            (if hypermodel \<notin> set (hypermodels self)
             then self\<lparr>hypermodel_to_id :=
                         dict_set hypermodel (length (hypermodels self)) (hypermodel_to_id self),
                       hypermodels := hypermodels self @ [hypermodel]\<rparr>
             else self);
          self2 = self1\<lparr>node_to_id := fold add_node (hm_outputs T hypermodel) (node_to_id self1)\<rparr>
      in if \<forall>input_node \<in> set (hm_inputs T hypermodel). has_key (node_to_id self2) input_node
         then Inr self2
         else Inl (missing_input_error (hm_name T hypermodel)))"

subsection \<open>\<^verbatim>\<open>_build_network\<close>\<close>

text \<open>
  The breadth-first loop works on the local \<^verbatim>\<open>queue\<close> (a FIFO: \<^verbatim>\<open>put\<close> appends,
  \<^verbatim>\<open>get\<close> takes the head), the local \<^verbatim>\<open>visited_nodes\<close> and \<^verbatim>\<open>self\<close>.
\<close>

record bfs_state =
  queue :: "node list"
  visited :: "node set"
  model :: graph_auto_model

definition enqueue_output :: "node \<Rightarrow> bfs_state \<Rightarrow> bfs_state" where
  "enqueue_output output_node st =
     (if output_node \<notin> visited st \<and> has_key (node_to_id (model st)) output_node
      then st\<lparr>visited := insert output_node (visited st), queue := queue st @ [output_node]\<rparr>
      else st)"

text \<open>The body of \<^verbatim>\<open>for hypermodel in input_node.out_hypermodels\<close>.\<close>

definition visit_hypermodel :: "topology \<Rightarrow> hypermodel \<Rightarrow> bfs_state \<Rightarrow> bfs_state outcome" where
  "visit_hypermodel T hypermodel st =
     (if \<not> (\<exists>output_node \<in> set (hm_outputs T hypermodel).
               has_key (node_to_id (model st)) output_node)
      then Some (Inr st)
      else
        (case add_hypermodel T hypermodel (model st) of
           Inl e \<Rightarrow> Some (Inl e)
         | Inr self' \<Rightarrow>
             Some (Inr (fold enqueue_output (hm_outputs T hypermodel) (st\<lparr>model := self'\<rparr>)))))"

text \<open>\<^verbatim>\<open>while not queue.empty()\<close>: one unit of fuel per iteration.\<close>

primrec bfs :: "nat \<Rightarrow> topology \<Rightarrow> bfs_state \<Rightarrow> bfs_state outcome" where
  "bfs 0 T st = (case queue st of [] \<Rightarrow> Some (Inr st) | input_node # rest \<Rightarrow> None)"
| "bfs (Suc fuel) T st =
     (case queue st of
        [] \<Rightarrow> Some (Inr st)
      | input_node # rest \<Rightarrow>
          (case for_each (visit_hypermodel T) (out_hypermodels T input_node)
                  (st\<lparr>queue := rest\<rparr>) of
             None \<Rightarrow> None
           | Some (Inl e) \<Rightarrow> Some (Inl e)
           | Some (Inr st') \<Rightarrow> bfs fuel T st'))"

text \<open>
  The last loop: \<^verbatim>\<open>output_node.in_hypermodels[0]\<close> raises \<^verbatim>\<open>IndexError\<close> on an
  empty list.
\<close>

fun set_output_shapes ::
  "topology \<Rightarrow> node list \<Rightarrow> (hypermodel \<Rightarrow> shape) \<Rightarrow> error + (hypermodel \<Rightarrow> shape)" where
  "set_output_shapes T [] os = Inr os"
| "set_output_shapes T (output_node # rest) os =
     (case in_hypermodels T output_node of
        [] \<Rightarrow> Inl IndexError
      | hypermodel # _ \<Rightarrow> set_output_shapes T rest (os(hypermodel := node_shape T output_node)))"

definition not_connected_error :: error where
  "not_connected_error = ValueError ''Inputs and outputs not connected.''"

definition enqueue_inputs :: "graph_auto_model \<Rightarrow> bfs_state" where
  "enqueue_inputs self =
     fold (\<lambda>input_node st. st\<lparr>queue := queue st @ [input_node],
                                 visited := insert input_node (visited st)\<rparr>)
       (inputs self) \<lparr>queue = [], visited = {}, model = self\<rparr>"

text \<open>
  The whole method. The same fuel bounds the depth of every search and the number of
  iterations of the \<^verbatim>\<open>while\<close> loop. \<^verbatim>\<open>self.nodes\<close> is
  \<^verbatim>\<open>sorted(keys, key=lambda x: self.node_to_id[x])\<close>; the key function is applied
  to keys of the dictionary only. An exception leaves \<^verbatim>\<open>__init__\<close>, so no state
  is returned with it.
\<close>

definition build_network :: "nat \<Rightarrow> topology \<Rightarrow> graph_auto_model \<Rightarrow> graph_auto_model outcome" where
  "build_network fuel T self =
     (case search_inputs fuel T (inputs self) (outputs self) of
        None \<Rightarrow> None
      | Some (Inl e) \<Rightarrow> Some (Inl e)
      | Some (Inr d) \<Rightarrow>
          (let self1 = self\<lparr>node_to_id := d,
                            nodes := sort_key (\<lambda>x. the (map_of d x)) (map fst d)\<rparr>
           in if \<exists>node \<in> set (inputs self1 @ outputs self1). \<not> has_key (node_to_id self1) node
              then Some (Inl not_connected_error)
              else
                (case bfs fuel T (enqueue_inputs (self1\<lparr>hypermodels := [], hypermodel_to_id := []\<rparr>)) of
                   None \<Rightarrow> None
                 | Some (Inl e) \<Rightarrow> Some (Inl e)
                 | Some (Inr st) \<Rightarrow>
                     (case set_output_shapes T (outputs (model st)) (output_shape (model st)) of
                        Inl e \<Rightarrow> Some (Inl e)
                      | Inr os \<Rightarrow> Some (Inr ((model st)\<lparr>output_shape := os\<rparr>))))))"

subsection \<open>\<^verbatim>\<open>_infer_metrics\<close> and \<^verbatim>\<open>_infer_loss\<close>\<close>

datatype metric = Accuracy | mse   \<comment> \<open>\<^verbatim>\<open>tf.keras.metrics.Accuracy\<close>, \<^verbatim>\<open>tf.keras.metrics.mse\<close>\<close>

datatype loss = categorical_crossentropy | mean_squared_error
  \<comment> \<open>\<^verbatim>\<open>tf.keras.losses.categorical_crossentropy\<close>, \<^verbatim>\<open>tf.keras.losses.mean_squared_error\<close>\<close>

definition infer_metrics :: "topology \<Rightarrow> graph_auto_model \<Rightarrow> metric list" where
  "infer_metrics T self =
     (if \<exists>hypermodel \<in> set (hypermodels self). is_ClassificationHead T hypermodel
      then [Accuracy] else [mse])"

definition infer_loss :: "topology \<Rightarrow> graph_auto_model \<Rightarrow> loss" where
  "infer_loss T self =
     (if \<exists>hypermodel \<in> set (hypermodels self). is_ClassificationHead T hypermodel
      then categorical_crossentropy else mean_squared_error)"

subsection \<open>\<^verbatim>\<open>build\<close>\<close>

text \<open>
  What \<^verbatim>\<open>build\<close> calls outside this class is a parameter: \<^verbatim>\<open>Node.build(hp)\<close>,
  \<^verbatim>\<open>HyperModel.build(hp, inputs=..., sub_model=True)\<close> followed by
  \<^verbatim>\<open>format_inputs\<close> (which returns a list), and the optimizer that
  \<^verbatim>\<open>hp.Choice\<close> picks.
\<close>

datatype optimizer = Adam | Adadelta | SGD

record ('hp, 'r) collaborators =
  node_build :: "node \<Rightarrow> 'hp \<Rightarrow> 'r"
  hypermodel_build :: "hypermodel \<Rightarrow> 'hp \<Rightarrow> 'r list \<Rightarrow> 'r list"
  choose_optimizer :: "'hp \<Rightarrow> optimizer"

record 'r keras_model =
  model_inputs :: "'r list"
  model_outputs :: "'r list"
  model_optimizer :: optimizer
  model_metrics :: "metric list"
  model_loss :: loss

text \<open>\<^verbatim>\<open>d[k]\<close> raises \<^verbatim>\<open>KeyError\<close> on a missing key.\<close>

definition dict_get :: "('k \<rightharpoonup> 'v) \<Rightarrow> 'k \<Rightarrow> error + 'v" where
  "dict_get d k = (case d k of None \<Rightarrow> Inl KeyError | Some v \<Rightarrow> Inr v)"

text \<open>\<^verbatim>\<open>real_nodes[self.node_to_id[node]]\<close>\<close>

definition real_node :: "(node \<times> nat) list \<Rightarrow> (nat \<rightharpoonup> 'r) \<Rightarrow> node \<Rightarrow> error + 'r" where
  "real_node d real_nodes n =
     (case dict_get (map_of d) n of
        Inl e \<Rightarrow> Inl e
      | Inr node_id \<Rightarrow> dict_get real_nodes node_id)"

text \<open>The list comprehension \<^verbatim>\<open>[real_nodes[self.node_to_id[n]] for n in ns]\<close>.\<close>

fun gather :: "(node \<times> nat) list \<Rightarrow> (nat \<rightharpoonup> 'r) \<Rightarrow> node list \<Rightarrow> error + 'r list" where
  "gather d real_nodes [] = Inr []"
| "gather d real_nodes (n # ns) =
     (case real_node d real_nodes n of
        Inl e \<Rightarrow> Inl e
      | Inr r \<Rightarrow> (case gather d real_nodes ns of Inl e \<Rightarrow> Inl e | Inr rs \<Rightarrow> Inr (r # rs)))"

text \<open>
  \<^verbatim>\<open>for output_node, real_output_node in zip(hypermodel.outputs, outputs)\<close>
\<close>

fun record_outputs ::
  "(node \<times> nat) list \<Rightarrow> (node \<times> 'r) list \<Rightarrow> (nat \<rightharpoonup> 'r) \<Rightarrow> error + (nat \<rightharpoonup> 'r)" where
  "record_outputs d [] real_nodes = Inr real_nodes"
| "record_outputs d ((output_node, real_output_node) # rest) real_nodes =
     (case dict_get (map_of d) output_node of
        Inl e \<Rightarrow> Inl e
      | Inr node_id \<Rightarrow> record_outputs d rest (real_nodes(node_id \<mapsto> real_output_node)))"

fun build_inputs ::
  "('hp, 'r) collaborators \<Rightarrow> (node \<times> nat) list \<Rightarrow> 'hp \<Rightarrow> node list \<Rightarrow> (nat \<rightharpoonup> 'r) \<Rightarrow>
     error + (nat \<rightharpoonup> 'r)" where
  "build_inputs C d hp [] real_nodes = Inr real_nodes"
| "build_inputs C d hp (input_node # rest) real_nodes =
     (case dict_get (map_of d) input_node of
        Inl e \<Rightarrow> Inl e
      | Inr node_id \<Rightarrow> build_inputs C d hp rest (real_nodes(node_id \<mapsto> node_build C input_node hp)))"

text \<open>
  The loop \<^verbatim>\<open>for hypermodel in self.hypermodels\<close>. Beside \<^verbatim>\<open>real_nodes\<close> the
  state carries the sequence of blocks whose \<^verbatim>\<open>build\<close> has been invoked so far; the
  arguments of the call are evaluated before the call.
\<close>

fun build_hypermodels ::
  "('hp, 'r) collaborators \<Rightarrow> topology \<Rightarrow> (node \<times> nat) list \<Rightarrow> 'hp \<Rightarrow> hypermodel list \<Rightarrow>
     hypermodel list \<times> (nat \<rightharpoonup> 'r) \<Rightarrow> hypermodel list \<times> (error + (nat \<rightharpoonup> 'r))" where
  "build_hypermodels C T d hp [] (invoked, real_nodes) = (invoked, Inr real_nodes)"
| "build_hypermodels C T d hp (hypermodel # rest) (invoked, real_nodes) =
     (case gather d real_nodes (hm_inputs T hypermodel) of
        Inl e \<Rightarrow> (invoked, Inl e)
      | Inr ins \<Rightarrow>
          (let outs = hypermodel_build C hypermodel hp ins;
               invoked' = invoked @ [hypermodel]
           in case record_outputs d (zip (hm_outputs T hypermodel) outs) real_nodes of
                Inl e \<Rightarrow> (invoked', Inl e)
              | Inr real_nodes' \<Rightarrow> build_hypermodels C T d hp rest (invoked', real_nodes')))"

text \<open>
  \<^verbatim>\<open>build\<close> returns the blocks whose \<^verbatim>\<open>build\<close> it invoked, in invocation order,
  and either the exception it raised or the compiled model.
\<close>

definition build ::
  "('hp, 'r) collaborators \<Rightarrow> topology \<Rightarrow> graph_auto_model \<Rightarrow> 'hp \<Rightarrow>
     hypermodel list \<times> (error + 'r keras_model)" where
  "build C T self hp =
     (case build_inputs C (node_to_id self) hp (inputs self) Map.empty of
        Inl e \<Rightarrow> ([], Inl e)
      | Inr real_nodes0 \<Rightarrow>
          (case build_hypermodels C T (node_to_id self) hp (hypermodels self) ([], real_nodes0) of
             (invoked, Inl e) \<Rightarrow> (invoked, Inl e)
           | (invoked, Inr real_nodes) \<Rightarrow>
               (case gather (node_to_id self) real_nodes (inputs self) of
                  Inl e \<Rightarrow> (invoked, Inl e)
                | Inr ins \<Rightarrow>
                    (case gather (node_to_id self) real_nodes (outputs self) of
                       Inl e \<Rightarrow> (invoked, Inl e)
                     | Inr outs \<Rightarrow>
                         (invoked,
                          Inr \<lparr>model_inputs = ins, model_outputs = outs,
                               model_optimizer = choose_optimizer C hp,
                               model_metrics = infer_metrics T self,
                               model_loss = infer_loss T self\<rparr>)))))"

section \<open>Example topologies\<close>

text \<open>
  A fresh instance as \<^verbatim>\<open>__init__\<close> hands it to \<^verbatim>\<open>_build_network\<close>. The four
  result fields are \<^verbatim>\<open>None\<close> at that point and \<^verbatim>\<open>_build_network\<close> assigns each
  of them before reading it, so they are given here as empty.
\<close>

definition init_model :: "node list \<Rightarrow> node list \<Rightarrow> graph_auto_model" where
  "init_model ins outs =
     \<lparr>inputs = ins, outputs = outs, node_to_id = [], nodes = [], hypermodel_to_id = [],
      hypermodels = [], output_shape = (\<lambda>_. None)\<rparr>"

text \<open>
  Nodes are numbered from 0 and blocks from 10. A topology is given by the two
  attributes of every node and the two attributes of every block.
\<close>

definition make_topology ::
  "(node \<Rightarrow> hypermodel list) \<Rightarrow> (node \<Rightarrow> hypermodel list) \<Rightarrow>
     (hypermodel \<Rightarrow> node list) \<Rightarrow> (hypermodel \<Rightarrow> node list) \<Rightarrow> topology" where
  "make_topology outs_of ins_of block_inputs block_outputs =
     \<lparr>out_hypermodels = outs_of, in_hypermodels = ins_of, node_shape = (\<lambda>_. None),
      hm_inputs = block_inputs, hm_outputs = block_outputs,
      hm_name = (\<lambda>_. ''block''), is_ClassificationHead = (\<lambda>_. False)\<rparr>"

text \<open>Input 0, block 10, output 1.\<close>

definition single_block_topology :: topology where
  "single_block_topology =
     make_topology (\<lambda>n. if n = 0 then [10] else []) (\<lambda>n. if n = 1 then [10] else [])
       (\<lambda>h. if h = 10 then [0] else []) (\<lambda>h. if h = 10 then [1] else [])"

text \<open>Input 0, block 10, output 1, and block 11 from node 1 back to node 0.\<close>

definition cycle_topology :: topology where
  "cycle_topology =
     make_topology (\<lambda>n. if n = 0 then [10] else if n = 1 then [11] else [])
       (\<lambda>n. if n = 1 then [10] else if n = 0 then [11] else [])
       (\<lambda>h. if h = 10 then [0] else if h = 11 then [1] else [])
       (\<lambda>h. if h = 10 then [1] else if h = 11 then [0] else [])"

text \<open>
  A skip connection: input 0, block 10 to node 1, block 11 from node 1 to node 2, and
  the merging block 12 from nodes 0 and 2 to the output 3. Node 0 lists its outgoing
  blocks in the order 10, 12.
\<close>

definition skip_topology :: topology where
  "skip_topology =
     make_topology
       (\<lambda>n. if n = 0 then [10, 12] else if n = 1 then [11] else if n = 2 then [12] else [])
       (\<lambda>n. if n = 1 then [10] else if n = 2 then [11] else if n = 3 then [12] else [])
       (\<lambda>h. if h = 10 then [0] else if h = 11 then [1] else if h = 12 then [0, 2] else [])
       (\<lambda>h. if h = 10 then [1] else if h = 11 then [2] else if h = 12 then [3] else [])"


text \<open>No block at all.\<close>

definition empty_topology :: topology where
  "empty_topology = make_topology (\<lambda>_. []) (\<lambda>_. []) (\<lambda>_. []) (\<lambda>_. [])"

text \<open>
  Input 0 and output 1 joined by block 10, which declares a second input, node 5, that
  is not a declared input of the graph.
\<close>

definition missing_input_topology :: topology where
  "missing_input_topology =
     make_topology (\<lambda>n. if n = 0 \<or> n = 5 then [10] else [])
       (\<lambda>n. if n = 1 then [10] else [])
       (\<lambda>h. if h = 10 then [0, 5] else []) (\<lambda>h. if h = 10 then [1] else [])"


text \<open>
  Collaborators for running \<^verbatim>\<open>build\<close>: the concrete representation of a node is a
  number, an input node is represented by its own reference, and every block returns one
  output, its own reference.
\<close>

definition echo_collaborators :: "(unit, nat) collaborators" where
  "echo_collaborators =
     \<lparr>node_build = (\<lambda>n hp. n), hypermodel_build = (\<lambda>h hp ins. [h]),
      choose_optimizer = (\<lambda>hp. Adam)\<rparr>"

section \<open>Graph notions used in the statements\<close>

text \<open>
  An edge leads from a node to every output node of every block among its
  \<^verbatim>\<open>out_hypermodels\<close>: these are the steps both traversals take.
\<close>

definition edges :: "topology \<Rightarrow> (node \<times> node) set" where
  "edges T = {(n, m). \<exists>h \<in> set (out_hypermodels T n). m \<in> set (hm_outputs T h)}"

definition reachable_from :: "topology \<Rightarrow> node list \<Rightarrow> node set" where
  "reachable_from T ins = {m. \<exists>i \<in> set ins. (i, m) \<in> (edges T)\<^sup>*}"

definition leads_to :: "topology \<Rightarrow> node list \<Rightarrow> node set" where
  "leads_to T outs = {n. \<exists>t \<in> set outs. (n, t) \<in> (edges T)\<^sup>*}"

text \<open>The nodes on a path from a declared input to a declared output.\<close>

definition on_path :: "topology \<Rightarrow> node list \<Rightarrow> node list \<Rightarrow> node set" where
  "on_path T ins outs = reachable_from T ins \<inter> leads_to T outs"

definition closed_under :: "topology \<Rightarrow> node set \<Rightarrow> bool" where
  "closed_under T R \<longleftrightarrow> (\<forall>n m. n \<in> R \<longrightarrow> (n, m) \<in> edges T \<longrightarrow> m \<in> R)"

subsection \<open>Invariants of the depth-first search\<close>

text \<open>A node is finished when its call has returned: visited and off the stack.\<close>

definition finished :: "search_state \<Rightarrow> node set" where
  "finished st = visited_nodes st - in_stack_nodes st"

definition ids_dense :: "(node \<times> nat) list \<Rightarrow> bool" where
  "ids_dense d \<longleftrightarrow> map snd d = [0..<length d] \<and> distinct (map fst d)"

definition search_inv :: "topology \<Rightarrow> node list \<Rightarrow> node set \<Rightarrow> search_state \<Rightarrow> bool" where
  "search_inv T outs R st \<longleftrightarrow>
     in_stack_nodes st \<subseteq> visited_nodes st \<and>
     visited_nodes st \<subseteq> R \<and>
     (\<forall>v m. v \<in> finished st \<longrightarrow> (v, m) \<in> edges T \<longrightarrow> m \<in> finished st) \<and>
     (\<forall>v. v \<in> finished st \<longrightarrow> (v, v) \<notin> (edges T)\<^sup>+) \<and>
     keys (ids st) \<subseteq> leads_to T outs \<inter> R \<and>
     (\<forall>v. v \<in> finished st \<longrightarrow> v \<in> leads_to T outs \<longrightarrow> v \<in> keys (ids st)) \<and>
     ids_dense (ids st) \<and>
     (\<forall>n i m. (n, i) \<in> set (ids st) \<longrightarrow> (n, m) \<in> edges T \<longrightarrow> m \<in> leads_to T outs \<longrightarrow>
        (\<exists>j < i. (m, j) \<in> set (ids st)))"

definition search_post :: "search_state \<Rightarrow> node \<Rightarrow> search_state \<Rightarrow> bool" where
  "search_post st n st' \<longleftrightarrow>
     in_stack_nodes st' = in_stack_nodes st \<and>
     visited_nodes st \<subseteq> visited_nodes st' \<and>
     n \<in> visited_nodes st' \<and>
     (\<exists>e. ids st' = ids st @ e)"

text \<open>Every node on the stack leads to the node the current call is for.\<close>

definition stack_path :: "topology \<Rightarrow> search_state \<Rightarrow> node \<Rightarrow> bool" where
  "stack_path T st n \<longleftrightarrow> (\<forall>v \<in> in_stack_nodes st. (v, n) \<in> (edges T)\<^sup>*)"

text \<open>
  What a call with \<open>fuel\<close> units does from a state that satisfies the invariant: it
  runs out of fuel only if fewer units were given than there are unvisited nodes, it
  raises nothing but the cycle error, and only if there is a cycle, and it returns in a state that satisfies the
  invariant again.
\<close>

definition search_spec ::
  "topology \<Rightarrow> node list \<Rightarrow> node set \<Rightarrow> nat \<Rightarrow> node \<Rightarrow> search_state \<Rightarrow>
     search_state outcome \<Rightarrow> bool" where
  "search_spec T outs R fuel n st r =
     (case r of
        None \<Rightarrow> finite R \<longrightarrow> fuel < card (R - visited_nodes st)
      | Some (Inl e) \<Rightarrow> e = cycle_error \<and> (\<exists>c \<in> R. (c, c) \<in> (edges T)\<^sup>+)
      | Some (Inr st') \<Rightarrow> search_inv T outs R st' \<and> search_post st n st')"

definition rec_ok ::
  "topology \<Rightarrow> node list \<Rightarrow> node set \<Rightarrow> nat \<Rightarrow>
     (node \<Rightarrow> search_state \<Rightarrow> search_state outcome) \<Rightarrow> bool" where
  "rec_ok T outs R fuel rec \<longleftrightarrow>
     (\<forall>m s. search_inv T outs R s \<longrightarrow> stack_path T s m \<longrightarrow> m \<in> R \<longrightarrow>
        m \<notin> visited_nodes s \<longrightarrow> search_spec T outs R fuel m s (rec m s))"

text \<open>
  The invariant of the nested iteration over the blocks and their output nodes in a call
  for node \<open>n\<close> entered in state \<open>st1\<close>, after the successors in \<open>D\<close> have been
  handled.
\<close>

definition loop_inv ::
  "topology \<Rightarrow> node list \<Rightarrow> node set \<Rightarrow> node \<Rightarrow> search_state \<Rightarrow> node set \<Rightarrow>
     bool \<times> search_state \<Rightarrow> bool" where
  "loop_inv T outs R n st1 D = (\<lambda>(reached, s).
     search_inv T outs R s \<and>
     in_stack_nodes s = in_stack_nodes st1 \<and>
     visited_nodes st1 \<subseteq> visited_nodes s \<and>
     (\<exists>e. ids s = ids st1 @ e) \<and>
     (\<forall>m \<in> D. m \<in> finished s \<and> (m \<in> leads_to T outs \<longrightarrow> reached)) \<and>
     (reached \<longrightarrow> n \<in> leads_to T outs) \<and>
     (n \<in> set outs \<longrightarrow> reached))"

definition loop_spec ::
  "topology \<Rightarrow> node list \<Rightarrow> node set \<Rightarrow> nat \<Rightarrow> node \<Rightarrow> search_state \<Rightarrow> node set \<Rightarrow>
     (bool \<times> search_state) outcome \<Rightarrow> bool" where
  "loop_spec T outs R fuel n st1 D r =
     (case r of
        None \<Rightarrow> finite R \<longrightarrow> fuel < card (R - visited_nodes st1)
      | Some (Inl e) \<Rightarrow> e = cycle_error \<and> (\<exists>c \<in> R. (c, c) \<in> (edges T)\<^sup>+)
      | Some (Inr t) \<Rightarrow> loop_inv T outs R n st1 D t)"

text \<open>
  The invariant of \<^verbatim>\<open>self.node_to_id\<close> between two searches, and what the search
  from input \<open>i\<close> has established once it has returned.
\<close>

definition ids_inv :: "topology \<Rightarrow> node list \<Rightarrow> node set \<Rightarrow> (node \<times> nat) list \<Rightarrow> bool" where
  "ids_inv T outs R d \<longleftrightarrow>
     keys d \<subseteq> leads_to T outs \<inter> R \<and>
     ids_dense d \<and>
     (\<forall>n i m. (n, i) \<in> set d \<longrightarrow> (n, m) \<in> edges T \<longrightarrow> m \<in> leads_to T outs \<longrightarrow>
        (\<exists>j < i. (m, j) \<in> set d))"

definition explored :: "topology \<Rightarrow> node list \<Rightarrow> (node \<times> nat) list \<Rightarrow> node \<Rightarrow> bool" where
  "explored T outs d i \<longleftrightarrow>
     (\<forall>w. (i, w) \<in> (edges T)\<^sup>* \<longrightarrow>
        (w, w) \<notin> (edges T)\<^sup>+ \<and> (w \<in> leads_to T outs \<longrightarrow> w \<in> keys d))"

definition input_spec ::
  "topology \<Rightarrow> node list \<Rightarrow> node set \<Rightarrow> nat \<Rightarrow> (node \<times> nat) list \<Rightarrow> node list \<Rightarrow>
     (node \<times> nat) list outcome \<Rightarrow> bool" where
  "input_spec T outs R fuel d handled r =
     (case r of
        None \<Rightarrow> finite R \<longrightarrow> fuel < card R
      | Some (Inl e) \<Rightarrow> e = cycle_error \<and> (\<exists>c \<in> R. (c, c) \<in> (edges T)\<^sup>+)
      | Some (Inr d') \<Rightarrow>
          ids_inv T outs R d' \<and> (\<exists>e. d' = d @ e) \<and> (\<forall>i \<in> set handled. explored T outs d' i))"

subsection \<open>Invariant of the breadth-first loop\<close>

text \<open>
  \<open>d0\<close> is \<^verbatim>\<open>self.node_to_id\<close> as the searches left it, \<open>ins\<close> and \<open>outs\<close> are the
  declared inputs and outputs.
\<close>

definition model_inv ::
  "topology \<Rightarrow> node list \<Rightarrow> node list \<Rightarrow> (node \<times> nat) list \<Rightarrow> graph_auto_model \<Rightarrow> bool" where
  "model_inv T ins outs d0 self \<longleftrightarrow>
     inputs self = ins \<and> outputs self = outs \<and>
     (\<exists>e. node_to_id self = d0 @ e) \<and>
     ids_dense (node_to_id self) \<and>
     keys (node_to_id self) =
       keys d0 \<union> (\<Union>h \<in> set (hypermodels self). set (hm_outputs T h)) \<and>
     (\<forall>h \<in> set (hypermodels self). set (hm_inputs T h) \<subseteq> keys (node_to_id self)) \<and>
     distinct (hypermodels self) \<and>
     (\<forall>h \<in> set (hypermodels self).
        \<exists>v \<in> reachable_from T ins. h \<in> set (out_hypermodels T v))"

definition bfs_inv ::
  "topology \<Rightarrow> node list \<Rightarrow> node list \<Rightarrow> (node \<times> nat) list \<Rightarrow> bfs_state \<Rightarrow> bool" where
  "bfs_inv T ins outs d0 st \<longleftrightarrow>
     model_inv T ins outs d0 (model st) \<and> set (queue st) \<subseteq> reachable_from T ins"

definition bfs_spec ::
  "topology \<Rightarrow> node list \<Rightarrow> node list \<Rightarrow> (node \<times> nat) list \<Rightarrow> bfs_state outcome \<Rightarrow> bool" where
  "bfs_spec T ins outs d0 r =
     (case r of
        None \<Rightarrow> True
      | Some (Inl e) \<Rightarrow> \<exists>h. e = missing_input_error (hm_name T h)
      | Some (Inr st') \<Rightarrow> bfs_inv T ins outs d0 st')"

subsection \<open>What resolution computes\<close>

text \<open>
  The four fields \<^verbatim>\<open>_build_network\<close> assigns; \<open>with_output_shape\<close> replaces the
  \<^verbatim>\<open>output_shape\<close> attributes in a state of the breadth-first loop.
\<close>

definition resolution_of ::
  "graph_auto_model \<Rightarrow>
     (node \<times> nat) list \<times> node list \<times> (hypermodel \<times> nat) list \<times> hypermodel list" where
  "resolution_of s = (node_to_id s, nodes s, hypermodel_to_id s, hypermodels s)"

definition with_output_shape :: "(hypermodel \<Rightarrow> shape) \<Rightarrow> bfs_state \<Rightarrow> bfs_state" where
  "with_output_shape os st = st\<lparr>model := (model st)\<lparr>output_shape := os\<rparr>\<rparr>"

section \<open>Properties\<close>

subsection \<open>Dictionaries\<close>

lemma has_key_keys: "has_key d k = (k \<in> keys d)"
  by (simp add: has_key_def keys_def)

lemma keys_Nil [simp]: "keys [] = {}"
  by (simp add: keys_def)

lemma keys_append [simp]: "keys (d @ e) = keys d \<union> keys e"
  by (auto simp: keys_def)

lemma dict_set_new: "k \<notin> keys d \<Longrightarrow> dict_set k v d = d @ [(k, v)]"
  by (induction d) (auto simp: keys_def)

lemma add_node_cases:
  "add_node n d = (if n \<in> keys d then d else d @ [(n, length d)])"
  by (simp add: add_node_def has_key_keys dict_set_new)

lemma keys_add_node [simp]: "keys (add_node n d) = insert n (keys d)"
  by (auto simp: add_node_cases keys_def)

lemma keys_fold_add_node [simp]: "keys (fold add_node ns d) = keys d \<union> set ns"
  by (induction ns arbitrary: d) auto

lemma add_node_extends: "\<exists>e. add_node n d = d @ e"
  by (simp add: add_node_cases)

lemma fold_add_node_extends: "\<exists>e. fold add_node ns d = d @ e"
proof (induction ns arbitrary: d)
  case Nil
  show ?case by simp
next
  case (Cons n ns)
  obtain e1 where e1: "add_node n d = d @ e1"
    using add_node_extends by blast
  obtain e2 where "fold add_node ns (add_node n d) = add_node n d @ e2"
    using Cons.IH by blast
  with e1 show ?case by simp
qed

subsection \<open>Rules for iteration\<close>

lemma for_each_outcome:
  assumes "I pre s"
    and "\<And>p x t t'. I p t \<Longrightarrow> x \<in> set xs \<Longrightarrow> body x t = Some (Inr t') \<Longrightarrow> I (p @ [x]) t'"
  shows "case for_each body xs s of
           None \<Rightarrow> \<exists>p x t. I p t \<and> x \<in> set xs \<and> body x t = None
         | Some (Inl e) \<Rightarrow> \<exists>p x t. I p t \<and> x \<in> set xs \<and> body x t = Some (Inl e)
         | Some (Inr s') \<Rightarrow> I (pre @ xs) s'"
  using assms
proof (induction xs arbitrary: pre s)
  case Nil
  then show ?case by simp
next
  case (Cons x xs)
  show ?case
  proof (cases "body x s")
    case None
    with Cons.prems(1) show ?thesis by auto
  next
    case (Some r)
    show ?thesis
    proof (cases r)
      case (Inl e)
      with Some Cons.prems(1) show ?thesis by auto
    next
      case (Inr s1)
      have step: "I (pre @ [x]) s1"
        using Cons.prems(2) [OF Cons.prems(1) _ Some [unfolded Inr]] by simp
      have "case for_each body xs s1 of
           None \<Rightarrow> \<exists>p x t. I p t \<and> x \<in> set xs \<and> body x t = None
         | Some (Inl e) \<Rightarrow> \<exists>p x t. I p t \<and> x \<in> set xs \<and> body x t = Some (Inl e)
         | Some (Inr s') \<Rightarrow> I ((pre @ [x]) @ xs) s'"
        by (rule Cons.IH [OF step]) (use Cons.prems(2) in auto)
      then show ?thesis
        using Some Inr by (auto split: option.splits sum.splits)
    qed
  qed
qed

lemma for_each_invariant:
  assumes "for_each body xs s = Some (Inr s')"
    and "I [] s"
    and "\<And>p x t t'. I p t \<Longrightarrow> x \<in> set xs \<Longrightarrow> body x t = Some (Inr t') \<Longrightarrow> I (p @ [x]) t'"
  shows "I xs s'"
  using for_each_outcome [of I "[]" s xs body, OF assms(2,3)] assms(1) by simp

lemma for_each_mono:
  assumes "for_each body xs s = Some r"
    and "\<And>x t r. x \<in> set xs \<Longrightarrow> body x t = Some r \<Longrightarrow> body' x t = Some r"
  shows "for_each body' xs s = Some r"
  using assms
proof (induction xs arbitrary: s)
  case Nil
  then show ?case by simp
next
  case (Cons x xs)
  from Cons.prems(1) obtain r1 where r1: "body x s = Some r1"
    by (cases "body x s") auto
  then have r1': "body' x s = Some r1"
    using Cons.prems(2) by simp
  show ?case
  proof (cases r1)
    case (Inl e)
    with r1 r1' Cons.prems(1) show ?thesis by auto
  next
    case (Inr s1)
    with r1 Cons.prems(1) have "for_each body xs s1 = Some r" by simp
    then have "for_each body' xs s1 = Some r"
      by (rule Cons.IH) (use Cons.prems(2) in auto)
    with r1' Inr show ?thesis by simp
  qed
qed

subsection \<open>The depth-first search\<close>

lemma closed_under_rtrancl:
  "(n, m) \<in> (edges T)\<^sup>* \<Longrightarrow> closed_under T R \<Longrightarrow> n \<in> R \<Longrightarrow> m \<in> R"
  by (induction rule: rtrancl_induct) (auto simp: closed_under_def)

lemma leads_to_step:
  "(n, m) \<in> edges T \<Longrightarrow> m \<in> leads_to T outs \<Longrightarrow> n \<in> leads_to T outs"
  by (auto simp: leads_to_def intro: converse_rtrancl_into_rtrancl)

lemma leads_to_output: "n \<in> set outs \<Longrightarrow> n \<in> leads_to T outs"
  by (auto simp: leads_to_def)

lemma leads_to_cases:
  "n \<in> leads_to T outs \<Longrightarrow> n \<in> set outs \<or> (\<exists>m. (n, m) \<in> edges T \<and> m \<in> leads_to T outs)"
  unfolding leads_to_def
  by (auto elim: converse_rtranclE)

lemma search_output_step:
  assumes rec: "rec_ok T outs R fuel rec"
    and closed: "closed_under T R"
    and inv: "loop_inv T outs R n st1 D t"
    and edge: "(n, m) \<in> edges T"
    and nR: "n \<in> R"
    and path: "\<forall>v \<in> in_stack_nodes st1. (v, n) \<in> (edges T)\<^sup>*"
  shows "loop_spec T outs R fuel n st1 (insert m D) (search_output rec m t)"
proof -
  obtain reached s where t: "t = (reached, s)" by (cases t)
  from inv t have sinv: "search_inv T outs R s"
    and stack: "in_stack_nodes s = in_stack_nodes st1"
    and vis: "visited_nodes st1 \<subseteq> visited_nodes s"
    and ext: "\<exists>e. ids s = ids st1 @ e"
    and handled: "\<forall>m \<in> D. m \<in> finished s \<and> (m \<in> leads_to T outs \<longrightarrow> reached)"
    and sound: "reached \<longrightarrow> n \<in> leads_to T outs"
    and out: "n \<in> set outs \<longrightarrow> reached"
    by (auto simp: loop_inv_def)
  have mR: "m \<in> R"
    using closed edge nR by (auto simp: closed_under_def)
  show ?thesis
  proof (cases "m \<in> in_stack_nodes s")
    case True
    with path stack have "(m, n) \<in> (edges T)\<^sup>*" by simp
    then have "(m, m) \<in> (edges T)\<^sup>+" using edge by (rule rtrancl_into_trancl1)
    with mR True show ?thesis
      by (auto simp: search_output_def t loop_spec_def)
  next
    case notstack: False
    show ?thesis
    proof (cases "m \<in> visited_nodes s")
      case True
      have mfin: "m \<in> finished s"
        using True notstack by (simp add: finished_def)
      have key: "m \<in> leads_to T outs \<longrightarrow> has_key (ids s) m"
        using sinv mfin by (auto simp: search_inv_def has_key_keys)
      have key2: "has_key (ids s) m \<longrightarrow> n \<in> leads_to T outs"
        using sinv edge leads_to_step [of n m T outs]
        by (auto simp: search_inv_def has_key_keys)
      show ?thesis
        using True notstack sinv stack vis ext handled sound out mfin key key2
        by (auto simp: search_output_def t loop_spec_def loop_inv_def)
    next
      case False
      have "stack_path T s m"
        using path stack edge by (auto simp: stack_path_def intro: rtrancl_into_rtrancl)
      then have spec: "search_spec T outs R fuel m s (rec m s)"
        using rec sinv mR False by (simp add: rec_ok_def)
      show ?thesis
      proof (cases "rec m s")
        case None
        with spec have "finite R \<longrightarrow> fuel < card (R - visited_nodes s)"
          by (simp add: search_spec_def)
        moreover have "finite R \<longrightarrow> card (R - visited_nodes s) \<le> card (R - visited_nodes st1)"
          using vis by (auto intro!: card_mono)
        ultimately show ?thesis
          using None False notstack
          by (auto simp: search_output_def t loop_spec_def)
      next
        case (Some r)
        show ?thesis
        proof (cases r)
          case (Inl e)
          with Some spec have "e = cycle_error \<and> (\<exists>c \<in> R. (c, c) \<in> (edges T)\<^sup>+)"
            by (simp add: search_spec_def)
          with Some Inl False notstack show ?thesis
            by (simp add: search_output_def t loop_spec_def)
        next
          case (Inr s')
          with Some spec have sinv': "search_inv T outs R s'"
            and post: "search_post s m s'"
            by (simp_all add: search_spec_def)
          from post have stack': "in_stack_nodes s' = in_stack_nodes s"
            and vis': "visited_nodes s \<subseteq> visited_nodes s'"
            and mvis: "m \<in> visited_nodes s'"
            and ext': "\<exists>e. ids s' = ids s @ e"
            by (auto simp: search_post_def)
          have mfin: "m \<in> finished s'"
            using mvis notstack stack' by (simp add: finished_def)
          have fin_mono: "finished s \<subseteq> finished s'"
            using vis' stack' by (auto simp: finished_def)
          have key: "m \<in> leads_to T outs \<longrightarrow> has_key (ids s') m"
            using sinv' mfin by (auto simp: search_inv_def has_key_keys)
          have key2: "has_key (ids s') m \<longrightarrow> n \<in> leads_to T outs"
            using sinv' edge leads_to_step [of n m T outs]
            by (auto simp: search_inv_def has_key_keys)
          have ext'': "\<exists>e. ids s' = ids st1 @ e"
            using ext ext' by auto
          have "loop_inv T outs R n st1 (insert m D)
                  (if has_key (ids s') m then True else reached, s')"
            using sinv' stack stack' vis vis' ext'' handled sound out mfin key key2 fin_mono
            by (auto simp: loop_inv_def)
          with Some Inr False notstack show ?thesis
            by (simp add: search_output_def t loop_spec_def)
        qed
      qed
    qed
  qed
qed


lemma search_outputs_loop:
  assumes rec: "rec_ok T outs R fuel rec"
    and closed: "closed_under T R"
    and inv: "loop_inv T outs R n st1 D t"
    and edges: "\<forall>m \<in> set xs. (n, m) \<in> edges T"
    and nR: "n \<in> R"
    and path: "\<forall>v \<in> in_stack_nodes st1. (v, n) \<in> (edges T)\<^sup>*"
  shows "loop_spec T outs R fuel n st1 (D \<union> set xs) (for_each (search_output rec) xs t)"
proof -
  let ?I = "\<lambda>p. loop_inv T outs R n st1 (D \<union> set p)"
  have step: "loop_spec T outs R fuel n st1 (insert x (D \<union> set p)) (search_output rec x u)"
    if "?I p u" "x \<in> set xs" for p x u
    using rec closed that(1) _ nR path by (rule search_output_step) (use that(2) edges in blast)
  have pres: "?I (p @ [x]) u'"
    if "?I p u" "x \<in> set xs" "search_output rec x u = Some (Inr u')" for p x u u'
    using step [OF that(1,2)] that(3) by (simp add: loop_spec_def)
  have start: "?I [] t"
    using inv by simp
  have out: "case for_each (search_output rec) xs t of
           None \<Rightarrow> \<exists>p x u. ?I p u \<and> x \<in> set xs \<and> search_output rec x u = None
         | Some (Inl e) \<Rightarrow> \<exists>p x u. ?I p u \<and> x \<in> set xs \<and> search_output rec x u = Some (Inl e)
         | Some (Inr s') \<Rightarrow> ?I ([] @ xs) s'"
    using start pres by (rule for_each_outcome)
  show ?thesis
  proof (cases "for_each (search_output rec) xs t")
    case None
    with out obtain p x u where "?I p u" "x \<in> set xs" "search_output rec x u = None"
      by auto
    with step [of p u x] have "finite R \<longrightarrow> fuel < card (R - visited_nodes st1)"
      by (simp add: loop_spec_def)
    with None show ?thesis by (simp add: loop_spec_def)
  next
    case (Some r)
    show ?thesis
    proof (cases r)
      case (Inl e)
      with Some out obtain p x u where
        "?I p u" "x \<in> set xs" "search_output rec x u = Some (Inl e)"
        by auto
      with step [of p u x] have "e = cycle_error \<and> (\<exists>c \<in> R. (c, c) \<in> (edges T)\<^sup>+)"
        by (simp add: loop_spec_def)
      with Some Inl show ?thesis by (simp add: loop_spec_def)
    next
      case (Inr u)
      with Some out show ?thesis by (simp add: loop_spec_def)
    qed
  qed
qed

lemma search_hypermodels_loop:
  assumes rec: "rec_ok T outs R fuel rec"
    and closed: "closed_under T R"
    and inv: "loop_inv T outs R n st1 D t"
    and hs: "set hs \<subseteq> set (out_hypermodels T n)"
    and nR: "n \<in> R"
    and path: "\<forall>v \<in> in_stack_nodes st1. (v, n) \<in> (edges T)\<^sup>*"
  shows "loop_spec T outs R fuel n st1 (D \<union> (\<Union>h \<in> set hs. set (hm_outputs T h)))
           (for_each (\<lambda>h. for_each (search_output rec) (hm_outputs T h)) hs t)"
proof -
  let ?body = "\<lambda>h. for_each (search_output rec) (hm_outputs T h)"
  let ?I = "\<lambda>p. loop_inv T outs R n st1 (D \<union> (\<Union>h \<in> set p. set (hm_outputs T h)))"
  have step: "loop_spec T outs R fuel n st1
                ((D \<union> (\<Union>h \<in> set p. set (hm_outputs T h))) \<union> set (hm_outputs T x)) (?body x u)"
    if "?I p u" "x \<in> set hs" for p x u
    using rec closed that(1) _ nR path
    by (rule search_outputs_loop) (use that(2) hs in \<open>auto simp: edges_def\<close>)
  have eq: "D \<union> (\<Union>h \<in> set (p @ [x]). set (hm_outputs T h)) =
            (D \<union> (\<Union>h \<in> set p. set (hm_outputs T h))) \<union> set (hm_outputs T x)" for p x
    by auto
  have pres: "?I (p @ [x]) u'"
    if "?I p u" "x \<in> set hs" "?body x u = Some (Inr u')" for p x u u'
    using step [OF that(1,2)] that(3) unfolding eq by (simp add: loop_spec_def)
  have start: "?I [] t"
    using inv by simp
  have out: "case for_each ?body hs t of
           None \<Rightarrow> \<exists>p x u. ?I p u \<and> x \<in> set hs \<and> ?body x u = None
         | Some (Inl e) \<Rightarrow> \<exists>p x u. ?I p u \<and> x \<in> set hs \<and> ?body x u = Some (Inl e)
         | Some (Inr s') \<Rightarrow> ?I ([] @ hs) s'"
    using start pres by (rule for_each_outcome)
  show ?thesis
  proof (cases "for_each ?body hs t")
    case None
    with out obtain p x u where "?I p u" "x \<in> set hs" "?body x u = None"
      by auto
    with step [of p u x] have "finite R \<longrightarrow> fuel < card (R - visited_nodes st1)"
      by (simp add: loop_spec_def)
    with None show ?thesis by (simp add: loop_spec_def)
  next
    case (Some r)
    show ?thesis
    proof (cases r)
      case (Inl e)
      with Some out obtain p x u where
        "?I p u" "x \<in> set hs" "?body x u = Some (Inl e)"
        by auto
      with step [of p u x] have "e = cycle_error \<and> (\<exists>c \<in> R. (c, c) \<in> (edges T)\<^sup>+)"
        by (simp add: loop_spec_def)
      with Some Inl show ?thesis by (simp add: loop_spec_def)
    next
      case (Inr u)
      with Some out show ?thesis by (simp add: loop_spec_def)
    qed
  qed
qed

lemma ids_dense_add_node: "ids_dense d \<Longrightarrow> ids_dense (add_node n d)"
  by (auto simp: ids_dense_def add_node_cases keys_def)

lemma ids_dense_bound: "ids_dense d \<Longrightarrow> (m, j) \<in> set d \<Longrightarrow> j < length d"
proof -
  assume d: "ids_dense d" and mem: "(m, j) \<in> set d"
  from mem have "j \<in> set (map snd d)" by force
  with d show ?thesis by (simp add: ids_dense_def)
qed

lemma finished_closed_rtrancl:
  assumes "(v, w) \<in> (edges T)\<^sup>*"
    and "\<forall>v m. v \<in> F \<longrightarrow> (v, m) \<in> edges T \<longrightarrow> m \<in> F"
    and "v \<in> F"
  shows "w \<in> F"
  using assms by (induction rule: rtrancl_induct) auto

lemma search_finish:
  assumes inv0: "search_inv T outs R st"
    and nR: "n \<in> R"
    and nvis: "n \<notin> visited_nodes st"
    and st1: "st1 = st\<lparr>visited_nodes := insert n (visited_nodes st),
                       in_stack_nodes := insert n (in_stack_nodes st)\<rparr>"
    and linv: "loop_inv T outs R n st1 {m. (n, m) \<in> edges T} (reached, s)"
    and s2: "s2 = (if reached then s\<lparr>ids := add_node n (ids s)\<rparr> else s)"
    and st': "st' = s2\<lparr>in_stack_nodes := in_stack_nodes st\<rparr>"
  shows "set_remove n (in_stack_nodes s2) = Inr (in_stack_nodes st)"
    and "search_inv T outs R st'"
    and "search_post st n st'"
proof -
  from linv have sinv: "search_inv T outs R s"
    and stack: "in_stack_nodes s = insert n (in_stack_nodes st)"
    and vis: "insert n (visited_nodes st) \<subseteq> visited_nodes s"
    and ext: "\<exists>e. ids s = ids st @ e"
    and handled: "\<forall>m. (n, m) \<in> edges T \<longrightarrow> m \<in> finished s \<and> (m \<in> leads_to T outs \<longrightarrow> reached)"
    and sound: "reached \<longrightarrow> n \<in> leads_to T outs"
    and out: "n \<in> set outs \<longrightarrow> reached"
    by (auto simp: loop_inv_def st1)
  have nstack: "n \<notin> in_stack_nodes st"
    using inv0 nvis by (auto simp: search_inv_def)
  have stack2: "in_stack_nodes s2 = insert n (in_stack_nodes st)"
    using stack by (simp add: s2)
  show "set_remove n (in_stack_nodes s2) = Inr (in_stack_nodes st)"
    using stack2 nstack by (simp add: set_remove_def)
  have vis': "visited_nodes st' = visited_nodes s"
    by (simp add: st' s2)
  have stack': "in_stack_nodes st' = in_stack_nodes st"
    by (simp add: st')
  have ids': "ids st' = (if reached then add_node n (ids s) else ids s)"
    by (simp add: st' s2)
  have fin: "finished st' = insert n (finished s)"
    using vis nstack by (auto simp: finished_def vis' stack' stack)
  have nfin: "n \<notin> finished s"
    by (simp add: finished_def stack)
  have closed_s: "\<forall>v m. v \<in> finished s \<longrightarrow> (v, m) \<in> edges T \<longrightarrow> m \<in> finished s"
    using sinv by (simp add: search_inv_def)
  have c1: "in_stack_nodes st' \<subseteq> visited_nodes st'"
    using inv0 vis by (auto simp: search_inv_def vis' stack')
  have c2: "visited_nodes st' \<subseteq> R"
    using sinv by (simp add: search_inv_def vis')
  have c3: "\<forall>v m. v \<in> finished st' \<longrightarrow> (v, m) \<in> edges T \<longrightarrow> m \<in> finished st'"
    using closed_s handled by (auto simp: fin)
  have nacyc: "(n, n) \<notin> (edges T)\<^sup>+"
  proof
    assume "(n, n) \<in> (edges T)\<^sup>+"
    then obtain m where nm: "(n, m) \<in> edges T" and mn: "(m, n) \<in> (edges T)\<^sup>*"
      by (auto dest: tranclD)
    from nm handled have "m \<in> finished s" by simp
    with mn closed_s have "n \<in> finished s"
      by (rule finished_closed_rtrancl)
    with nfin show False by simp
  qed
  have c4: "\<forall>v. v \<in> finished st' \<longrightarrow> (v, v) \<notin> (edges T)\<^sup>+"
    using sinv nacyc by (auto simp: fin search_inv_def)
  have keys': "keys (ids st') = (if reached then insert n (keys (ids s)) else keys (ids s))"
    by (simp add: ids')
  have c5: "keys (ids st') \<subseteq> leads_to T outs \<inter> R"
    using sinv sound nR by (auto simp: keys' search_inv_def)
  have nreached: "n \<in> leads_to T outs \<longrightarrow> reached"
    using leads_to_cases [of n T outs] handled out by blast
  have c6: "\<forall>v. v \<in> finished st' \<longrightarrow> v \<in> leads_to T outs \<longrightarrow> v \<in> keys (ids st')"
    using sinv nreached by (auto simp: fin keys' search_inv_def)
  have dense_s: "ids_dense (ids s)"
    using sinv by (simp add: search_inv_def)
  have c7: "ids_dense (ids st')"
    using dense_s by (simp add: ids' ids_dense_add_node)
  have order_s: "\<forall>n i m. (n, i) \<in> set (ids s) \<longrightarrow> (n, m) \<in> edges T \<longrightarrow> m \<in> leads_to T outs \<longrightarrow>
        (\<exists>j < i. (m, j) \<in> set (ids s))"
    using sinv by (simp add: search_inv_def)
  have c8: "\<forall>a i m. (a, i) \<in> set (ids st') \<longrightarrow> (a, m) \<in> edges T \<longrightarrow> m \<in> leads_to T outs \<longrightarrow>
        (\<exists>j < i. (m, j) \<in> set (ids st'))"
  proof (cases "reached \<and> n \<notin> keys (ids s)")
    case False
    then have "ids st' = ids s"
      by (auto simp: ids' add_node_cases)
    with order_s show ?thesis by simp
  next
    case True
    then have eq: "ids st' = ids s @ [(n, length (ids s))]"
      by (simp add: ids' add_node_cases)
    show ?thesis
    proof (intro allI impI)
      fix a i m
      assume mem: "(a, i) \<in> set (ids st')" and am: "(a, m) \<in> edges T"
        and ml: "m \<in> leads_to T outs"
      from mem eq consider "(a, i) \<in> set (ids s)" | "a = n" "i = length (ids s)"
        by auto
      then show "\<exists>j < i. (m, j) \<in> set (ids st')"
      proof cases
        case 1
        with order_s am ml obtain j where "j < i" "(m, j) \<in> set (ids s)"
          by blast
        then show ?thesis by (auto simp: eq)
      next
        case 2
        from am 2 handled have "m \<in> finished s" by simp
        with sinv ml have "m \<in> keys (ids s)"
          by (simp add: search_inv_def)
        then obtain j where j: "(m, j) \<in> set (ids s)"
          by (auto simp: keys_def)
        with dense_s have "j < length (ids s)"
          by (rule ids_dense_bound)
        with j 2 show ?thesis by (auto simp: eq)
      qed
    qed
  qed
  show "search_inv T outs R st'"
    unfolding search_inv_def
    using c1 c2 c3 c4 c5 c6 c7 c8 by blast
  have ext': "\<exists>e. ids st' = ids st @ e"
  proof -
    from ext obtain e where e: "ids s = ids st @ e" by blast
    obtain e2 where "add_node n (ids s) = ids s @ e2"
      using add_node_extends by blast
    with e show ?thesis by (auto simp: ids')
  qed
  show "search_post st n st'"
    using vis ext' by (auto simp: search_post_def vis' stack')
qed

lemma search_inv_enter:
  assumes inv0: "search_inv T outs R st"
    and nR: "n \<in> R"
    and nvis: "n \<notin> visited_nodes st"
  shows "loop_inv T outs R n
           (st\<lparr>visited_nodes := insert n (visited_nodes st),
               in_stack_nodes := insert n (in_stack_nodes st)\<rparr>) {}
           (n \<in> set outs,
            st\<lparr>visited_nodes := insert n (visited_nodes st),
               in_stack_nodes := insert n (in_stack_nodes st)\<rparr>)"
proof -
  let ?st1 = "st\<lparr>visited_nodes := insert n (visited_nodes st),
               in_stack_nodes := insert n (in_stack_nodes st)\<rparr>"
  have fin: "finished ?st1 = finished st"
    using nvis by (auto simp: finished_def)
  have "search_inv T outs R ?st1"
    using inv0 nR unfolding search_inv_def fin by auto
  then show ?thesis
    by (auto simp: loop_inv_def leads_to_output)
qed

lemma search_network_spec:
  assumes closed: "closed_under T R"
  shows "search_inv T outs R st \<Longrightarrow> stack_path T st n \<Longrightarrow> n \<in> R \<Longrightarrow>
         n \<notin> visited_nodes st \<Longrightarrow>
         search_spec T outs R fuel n st (search_network fuel T outs n st)"
proof (induction fuel arbitrary: n st)
  case 0
  have "finite R \<longrightarrow> 0 < card (R - visited_nodes st)"
  proof
    assume "finite R"
    moreover have "n \<in> R - visited_nodes st" using 0 by simp
    ultimately show "0 < card (R - visited_nodes st)"
      by (metis card_gt_0_iff empty_iff finite_Diff)
  qed
  then show ?case by (simp add: search_spec_def)
next
  case (Suc fuel)
  let ?st1 = "st\<lparr>visited_nodes := insert n (visited_nodes st),
               in_stack_nodes := insert n (in_stack_nodes st)\<rparr>"
  let ?loop = "for_each (\<lambda>h. for_each (search_output (search_network fuel T outs)) (hm_outputs T h))
                 (out_hypermodels T n) (n \<in> set outs, ?st1)"
  have rec: "rec_ok T outs R fuel (search_network fuel T outs)"
    using Suc.IH by (simp add: rec_ok_def)
  have linv0: "loop_inv T outs R n ?st1 {} (n \<in> set outs, ?st1)"
    using Suc.prems(1,3,4) by (rule search_inv_enter)
  have path: "\<forall>v \<in> in_stack_nodes ?st1. (v, n) \<in> (edges T)\<^sup>*"
    using Suc.prems(2) by (auto simp: stack_path_def)
  have succs: "{} \<union> (\<Union>h \<in> set (out_hypermodels T n). set (hm_outputs T h)) = {m. (n, m) \<in> edges T}"
    by (auto simp: edges_def)
  have loop: "loop_spec T outs R fuel n ?st1 {m. (n, m) \<in> edges T} ?loop"
    using search_hypermodels_loop [OF rec closed linv0 subset_refl Suc.prems(3) path]
    unfolding succs .
  show ?case
  proof (cases ?loop)
    case None
    have "finite R \<longrightarrow> Suc fuel < card (R - visited_nodes st)"
    proof
      assume fin: "finite R"
      with loop None have "fuel < card (R - insert n (visited_nodes st))"
        by (simp add: loop_spec_def)
      moreover have "R - insert n (visited_nodes st) = (R - visited_nodes st) - {n}"
        by auto
      moreover have "n \<in> R - visited_nodes st" using Suc.prems by simp
      ultimately show "Suc fuel < card (R - visited_nodes st)"
        using fin by (simp add: card_Diff_singleton)
    qed
    with None show ?thesis
      by (simp add: search_spec_def Let_def)
  next
    case (Some r)
    show ?thesis
    proof (cases r)
      case (Inl e)
      with Some loop have "e = cycle_error \<and> (\<exists>c \<in> R. (c, c) \<in> (edges T)\<^sup>+)"
        by (simp add: loop_spec_def)
      with Some Inl show ?thesis
        by (simp add: search_spec_def Let_def)
    next
      case (Inr t)
      obtain reached s where t: "t = (reached, s)" by (cases t)
      let ?s2 = "if reached then s\<lparr>ids := add_node n (ids s)\<rparr> else s"
      let ?st' = "?s2\<lparr>in_stack_nodes := in_stack_nodes st\<rparr>"
      from Some Inr t loop have linv: "loop_inv T outs R n ?st1 {m. (n, m) \<in> edges T} (reached, s)"
        by (simp add: loop_spec_def)
      note fin = search_finish [OF Suc.prems(1,3,4) refl linv refl refl]
      have "search_network (Suc fuel) T outs n st = Some (Inr ?st')"
        using Some Inr t fin(1) by (simp add: Let_def)
      with fin(2,3) show ?thesis
        by (simp add: search_spec_def)
    qed
  qed
qed

lemma explored_extend: "explored T outs d i \<Longrightarrow> explored T outs (d @ e) i"
  by (auto simp: explored_def)

lemma search_input_spec:
  assumes closed: "closed_under T R"
    and inv: "ids_inv T outs R d"
    and iR: "i \<in> R"
  shows "input_spec T outs R fuel d [i] (search_input fuel T outs i d)"
proof -
  let ?st = "\<lparr>in_stack_nodes = {}, visited_nodes = {}, ids = d\<rparr>"
  have sinv: "search_inv T outs R ?st"
    using inv by (simp add: search_inv_def ids_inv_def finished_def)
  have path: "stack_path T ?st i"
    by (simp add: stack_path_def)
  have spec: "search_spec T outs R fuel i ?st (search_network fuel T outs i ?st)"
    using closed sinv path iR by (rule search_network_spec) simp
  show ?thesis
  proof (cases "search_network fuel T outs i ?st")
    case None
    with spec show ?thesis
      by (simp add: search_spec_def input_spec_def search_input_def)
  next
    case (Some r)
    show ?thesis
    proof (cases r)
      case (Inl e)
      with Some spec show ?thesis
        by (simp add: search_spec_def input_spec_def search_input_def)
    next
      case (Inr st')
      with Some spec have inv': "search_inv T outs R st'" and post: "search_post ?st i st'"
        by (simp_all add: search_spec_def)
      from post have stack: "in_stack_nodes st' = {}" and ivis: "i \<in> visited_nodes st'"
        and ext: "\<exists>e. ids st' = d @ e"
        by (auto simp: search_post_def)
      have fin: "finished st' = visited_nodes st'"
        by (simp add: finished_def stack)
      have closedF: "\<forall>v m. v \<in> finished st' \<longrightarrow> (v, m) \<in> edges T \<longrightarrow> m \<in> finished st'"
        using inv' by (simp add: search_inv_def)
      have reach: "w \<in> finished st'" if "(i, w) \<in> (edges T)\<^sup>*" for w
        using that closedF by (rule finished_closed_rtrancl) (simp add: fin ivis)
      have expl: "explored T outs (ids st') i"
        using inv' reach by (auto simp: explored_def search_inv_def)
      have "ids_inv T outs R (ids st')"
        using inv' by (simp add: search_inv_def ids_inv_def)
      with Some Inr ext expl show ?thesis
        by (simp add: input_spec_def search_input_def)
    qed
  qed
qed

lemma search_inputs_loop:
  assumes closed: "closed_under T R"
    and inv: "ids_inv T outs R d"
    and ins: "set ins \<subseteq> R"
  shows "input_spec T outs R fuel d ins (for_each (search_input fuel T outs) ins d)"
proof -
  let ?I = "\<lambda>(p::node list) d'. ids_inv T outs R d' \<and> (\<exists>e. d' = d @ e) \<and> (\<forall>i \<in> set p. explored T outs d' i)"
  have step: "input_spec T outs R fuel u [x] (search_input fuel T outs x u)"
    if "?I p u" "x \<in> set ins" for p x u
    using closed _ _ by (rule search_input_spec) (use that ins in auto)
  have pres: "?I (p @ [x]) u'"
    if "?I p u" "x \<in> set ins" "search_input fuel T outs x u = Some (Inr u')" for p x u u'
    using step [OF that(1,2)] that(1,3)
    by (auto simp: input_spec_def intro: explored_extend)
  have start: "?I [] d"
    using inv by simp
  have out: "case for_each (search_input fuel T outs) ins d of
           None \<Rightarrow> \<exists>p x u. ?I p u \<and> x \<in> set ins \<and> search_input fuel T outs x u = None
         | Some (Inl e) \<Rightarrow> \<exists>p x u. ?I p u \<and> x \<in> set ins \<and> search_input fuel T outs x u = Some (Inl e)
         | Some (Inr s') \<Rightarrow> ?I ([] @ ins) s'"
    using start pres by (rule for_each_outcome)
  show ?thesis
  proof (cases "for_each (search_input fuel T outs) ins d")
    case None
    with out obtain p x u where a: "?I p u" "x \<in> set ins"
      and b: "search_input fuel T outs x u = None"
      by auto
    from step [OF a] b have "finite R \<longrightarrow> fuel < card R"
      by (simp add: input_spec_def)
    with None show ?thesis by (simp add: input_spec_def)
  next
    case (Some r)
    show ?thesis
    proof (cases r)
      case (Inl e)
      with Some out obtain p x u where a: "?I p u" "x \<in> set ins"
        and b: "search_input fuel T outs x u = Some (Inl e)"
        by auto
      from step [OF a] b have "e = cycle_error \<and> (\<exists>c \<in> R. (c, c) \<in> (edges T)\<^sup>+)"
        by (simp add: input_spec_def)
      with Some Inl show ?thesis by (simp add: input_spec_def)
    next
      case (Inr u)
      with Some out show ?thesis by (simp add: input_spec_def)
    qed
  qed
qed

lemma closed_reachable_from: "closed_under T (reachable_from T ins)"
  by (auto simp: closed_under_def reachable_from_def intro: rtrancl_into_rtrancl)

lemma inputs_reachable: "set ins \<subseteq> reachable_from T ins"
  by (auto simp: reachable_from_def)

text \<open>The outcome of the first loop of resolution.\<close>

lemma search_inputs_outcome:
  "case search_inputs fuel T ins outs of
     None \<Rightarrow> finite (reachable_from T ins) \<longrightarrow> fuel < card (reachable_from T ins)
   | Some (Inl e) \<Rightarrow> e = cycle_error \<and> (\<exists>c \<in> reachable_from T ins. (c, c) \<in> (edges T)\<^sup>+)
   | Some (Inr d) \<Rightarrow>
       keys d = on_path T ins outs \<and>
       (\<forall>c \<in> reachable_from T ins. (c, c) \<notin> (edges T)\<^sup>+) \<and>
       ids_inv T outs (reachable_from T ins) d"
proof -
  let ?R = "reachable_from T ins"
  have "ids_inv T outs ?R []"
    by (simp add: ids_inv_def ids_dense_def)
  with closed_reachable_from
  have spec: "input_spec T outs ?R fuel [] ins (search_inputs fuel T ins outs)"
    unfolding search_inputs_def by (rule search_inputs_loop) (rule inputs_reachable)
  show ?thesis
  proof (cases "search_inputs fuel T ins outs")
    case None
    with spec show ?thesis by (simp add: input_spec_def)
  next
    case (Some r)
    show ?thesis
    proof (cases r)
      case (Inl e)
      with Some spec show ?thesis by (simp add: input_spec_def)
    next
      case (Inr d)
      with Some spec have inv: "ids_inv T outs ?R d"
        and expl: "\<forall>i \<in> set ins. explored T outs d i"
        by (simp_all add: input_spec_def)
      have "keys d \<subseteq> on_path T ins outs"
        using inv by (auto simp: ids_inv_def on_path_def)
      moreover have "on_path T ins outs \<subseteq> keys d"
        using expl by (auto simp: on_path_def reachable_from_def explored_def)
      moreover have "\<forall>c \<in> ?R. (c, c) \<notin> (edges T)\<^sup>+"
        using expl by (auto simp: reachable_from_def explored_def)
      ultimately show ?thesis
        using Some Inr inv by auto
    qed
  qed
qed

lemma reachable_from_subset:
  assumes "set ins \<subseteq> R" and "closed_under T R"
  shows "reachable_from T ins \<subseteq> R"
proof
  fix m assume "m \<in> reachable_from T ins"
  then obtain i where "i \<in> set ins" "(i, m) \<in> (edges T)\<^sup>*"
    by (auto simp: reachable_from_def)
  with assms show "m \<in> R"
    by (auto intro: closed_under_rtrancl)
qed

lemma closed_underI:
  "(\<And>n h. n \<in> R \<Longrightarrow> h \<in> set (out_hypermodels T n) \<Longrightarrow> set (hm_outputs T h) \<subseteq> R) \<Longrightarrow>
   closed_under T R"
  by (auto simp: closed_under_def edges_def)

lemma edgeI:
  "h \<in> set (out_hypermodels T n) \<Longrightarrow> m \<in> set (hm_outputs T h) \<Longrightarrow> (n, m) \<in> edges T"
  by (auto simp: edges_def)

lemma cycle_topology_reachable: "reachable_from cycle_topology [0] \<subseteq> {0, 1}"
  by (rule reachable_from_subset)
    (auto intro!: closed_underI simp: cycle_topology_def make_topology_def split: if_splits)

subsection \<open>The breadth-first loop\<close>

lemma ids_dense_fold_add_node: "ids_dense d \<Longrightarrow> ids_dense (fold add_node ns d)"
  by (induction ns arbitrary: d) (auto intro: ids_dense_add_node)

lemma add_hypermodel_Inr:
  assumes "add_hypermodel T h self = Inr self'"
  shows "inputs self' = inputs self"
    and "outputs self' = outputs self"
    and "nodes self' = nodes self"
    and "output_shape self' = output_shape self"
    and "node_to_id self' = fold add_node (hm_outputs T h) (node_to_id self)"
    and "hypermodels self' =
           (if h \<in> set (hypermodels self) then hypermodels self else hypermodels self @ [h])"
    and "set (hm_inputs T h) \<subseteq> keys (node_to_id self')"
  using assms
  by (auto simp: add_hypermodel_def Let_def has_key_keys split: if_splits)

lemma add_hypermodel_Inl:
  "add_hypermodel T h self = Inl e \<Longrightarrow> e = missing_input_error (hm_name T h)"
  by (auto simp: add_hypermodel_def Let_def split: if_splits)

lemma fold_enqueue_output:
  "model (fold enqueue_output ns st) = model st \<and>
   set (queue (fold enqueue_output ns st)) \<subseteq> set (queue st) \<union> set ns"
proof (induction ns arbitrary: st)
  case Nil
  show ?case by simp
next
  case (Cons n ns)
  have "model (enqueue_output n st) = model st"
    and "set (queue (enqueue_output n st)) \<subseteq> set (queue st) \<union> {n}"
    by (auto simp: enqueue_output_def)
  with Cons.IH [of "enqueue_output n st"] show ?case by auto
qed

lemma visit_hypermodel_spec:
  assumes inv: "bfs_inv T ins outs d0 st"
    and v: "v \<in> reachable_from T ins"
    and h: "h \<in> set (out_hypermodels T v)"
  shows "bfs_spec T ins outs d0 (visit_hypermodel T h st)"
proof (cases "\<exists>output_node \<in> set (hm_outputs T h). has_key (node_to_id (model st)) output_node")
  case False
  with inv show ?thesis
    by (simp add: visit_hypermodel_def bfs_spec_def)
next
  case True
  show ?thesis
  proof (cases "add_hypermodel T h (model st)")
    case (Inl e)
    with True show ?thesis
      by (auto simp: visit_hypermodel_def bfs_spec_def dest: add_hypermodel_Inl)
  next
    case (Inr self')
    note f = add_hypermodel_Inr [OF Inr]
    let ?st' = "fold enqueue_output (hm_outputs T h) (st\<lparr>model := self'\<rparr>)"
    have res: "visit_hypermodel T h st = Some (Inr ?st')"
      using True Inr by (simp add: visit_hypermodel_def)
    have m: "model ?st' = self'"
      using fold_enqueue_output [of "hm_outputs T h" "st\<lparr>model := self'\<rparr>"] by simp
    have q: "set (queue ?st') \<subseteq> set (queue st) \<union> set (hm_outputs T h)"
      using fold_enqueue_output [of "hm_outputs T h" "st\<lparr>model := self'\<rparr>"] by simp
    have outR: "set (hm_outputs T h) \<subseteq> reachable_from T ins"
      using closed_reachable_from [of T ins] v h
      by (auto simp: closed_under_def edges_def)
    from inv have i1: "inputs (model st) = ins" "outputs (model st) = outs"
      and i2: "\<exists>e. node_to_id (model st) = d0 @ e"
      and i3: "ids_dense (node_to_id (model st))"
      and i4: "keys (node_to_id (model st)) =
                 keys d0 \<union> (\<Union>h \<in> set (hypermodels (model st)). set (hm_outputs T h))"
      and i5: "\<forall>h \<in> set (hypermodels (model st)).
                 set (hm_inputs T h) \<subseteq> keys (node_to_id (model st))"
      and i6: "distinct (hypermodels (model st))"
      and i7: "set (queue st) \<subseteq> reachable_from T ins"
      and i8: "\<forall>h \<in> set (hypermodels (model st)).
                 \<exists>v \<in> reachable_from T ins. h \<in> set (out_hypermodels T v)"
      unfolding bfs_inv_def model_inv_def by blast+
    have hs: "set (hypermodels self') = insert h (set (hypermodels (model st)))"
      by (auto simp: f(6))
    have k: "keys (node_to_id self') = keys (node_to_id (model st)) \<union> set (hm_outputs T h)"
      by (simp add: f(5))
    have c1: "inputs self' = ins" "outputs self' = outs"
      using i1 f(1,2) by simp_all
    have c2: "\<exists>e. node_to_id self' = d0 @ e"
    proof -
      from i2 obtain e where e: "node_to_id (model st) = d0 @ e" by blast
      obtain e2 where "node_to_id self' = node_to_id (model st) @ e2"
        using fold_add_node_extends [of "hm_outputs T h" "node_to_id (model st)"]
        by (auto simp: f(5))
      with e show ?thesis by simp
    qed
    have c3: "ids_dense (node_to_id self')"
      using i3 by (simp add: f(5) ids_dense_fold_add_node)
    have c4: "keys (node_to_id self') =
                keys d0 \<union> (\<Union>h \<in> set (hypermodels self'). set (hm_outputs T h))"
      unfolding k hs i4 by auto
    have c5: "\<forall>h \<in> set (hypermodels self'). set (hm_inputs T h) \<subseteq> keys (node_to_id self')"
      unfolding hs using i5 f(7) k by auto
    have c6: "distinct (hypermodels self')"
      using i6 by (simp add: f(6))
    have c7: "set (queue ?st') \<subseteq> reachable_from T ins"
      using q i7 outR by auto
    have c8: "\<forall>h \<in> set (hypermodels self'). \<exists>v \<in> reachable_from T ins. h \<in> set (out_hypermodels T v)"
      unfolding hs using i8 v h by auto
    have "model_inv T ins outs d0 self'"
      unfolding model_inv_def using c1 c2 c3 c4 c5 c6 c8 by blast
    then have "bfs_inv T ins outs d0 ?st'"
      unfolding bfs_inv_def m using c7 by simp
    with res show ?thesis by (simp add: bfs_spec_def)
  qed
qed

lemma visit_hypermodels_loop:
  assumes inv: "bfs_inv T ins outs d0 st"
    and v: "v \<in> reachable_from T ins"
    and hs: "set hs \<subseteq> set (out_hypermodels T v)"
  shows "bfs_spec T ins outs d0 (for_each (visit_hypermodel T) hs st)"
proof -
  let ?I = "\<lambda>(p::hypermodel list). bfs_inv T ins outs d0"
  have step: "bfs_spec T ins outs d0 (visit_hypermodel T x u)"
    if "?I p u" "x \<in> set hs" for p x u
    using that(1) v by (rule visit_hypermodel_spec) (use that(2) hs in auto)
  have pres: "?I (p @ [x]) u'"
    if "?I p u" "x \<in> set hs" "visit_hypermodel T x u = Some (Inr u')" for p x u u'
    using step [OF that(1,2)] that(3) by (simp add: bfs_spec_def)
  have out: "case for_each (visit_hypermodel T) hs st of
           None \<Rightarrow> \<exists>p x u. ?I p u \<and> x \<in> set hs \<and> visit_hypermodel T x u = None
         | Some (Inl e) \<Rightarrow> \<exists>p x u. ?I p u \<and> x \<in> set hs \<and> visit_hypermodel T x u = Some (Inl e)
         | Some (Inr s') \<Rightarrow> ?I ([] @ hs) s'"
    using inv pres by (rule for_each_outcome)
  show ?thesis
  proof (cases "for_each (visit_hypermodel T) hs st")
    case None
    then show ?thesis by (simp add: bfs_spec_def)
  next
    case (Some r)
    show ?thesis
    proof (cases r)
      case (Inl e)
      with Some out obtain p x u where a: "?I p u" "x \<in> set hs"
        and b: "visit_hypermodel T x u = Some (Inl e)"
        by auto
      from step [OF a] b have "\<exists>h. e = missing_input_error (hm_name T h)"
        by (simp add: bfs_spec_def)
      with Some Inl show ?thesis by (simp add: bfs_spec_def)
    next
      case (Inr u)
      with Some out show ?thesis by (simp add: bfs_spec_def)
    qed
  qed
qed

lemma bfs_inv_dequeue:
  "bfs_inv T ins outs d0 st \<Longrightarrow> queue st = n # rest \<Longrightarrow>
   bfs_inv T ins outs d0 (st\<lparr>queue := rest\<rparr>) \<and> n \<in> reachable_from T ins"
  by (simp add: bfs_inv_def)

lemma bfs_outcome:
  "bfs_inv T ins outs d0 st \<Longrightarrow> bfs_spec T ins outs d0 (bfs fuel T st)"
proof (induction fuel arbitrary: st)
  case 0
  then show ?case
    by (cases "queue st") (simp_all add: bfs_spec_def)
next
  case (Suc fuel)
  show ?case
  proof (cases "queue st")
    case Nil
    with Suc.prems show ?thesis by (simp add: bfs_spec_def)
  next
    case (Cons n rest)
    from bfs_inv_dequeue [OF Suc.prems Cons]
    have inv: "bfs_inv T ins outs d0 (st\<lparr>queue := rest\<rparr>)" and nR: "n \<in> reachable_from T ins"
      by simp_all
    have loop: "bfs_spec T ins outs d0
                  (for_each (visit_hypermodel T) (out_hypermodels T n) (st\<lparr>queue := rest\<rparr>))"
      using inv nR subset_refl by (rule visit_hypermodels_loop)
    show ?thesis
    proof (cases "for_each (visit_hypermodel T) (out_hypermodels T n) (st\<lparr>queue := rest\<rparr>)")
      case None
      with Cons show ?thesis by (simp add: bfs_spec_def)
    next
      case (Some r)
      show ?thesis
      proof (cases r)
        case (Inl e)
        with Some loop Cons show ?thesis by (simp add: bfs_spec_def)
      next
        case (Inr st')
        with Some loop have "bfs_inv T ins outs d0 st'" by (simp add: bfs_spec_def)
        then have "bfs_spec T ins outs d0 (bfs fuel T st')" by (rule Suc.IH)
        with Some Inr Cons show ?thesis by simp
      qed
    qed
  qed
qed

lemma enqueue_inputs_fold:
  "fold (\<lambda>input_node st. st\<lparr>queue := queue st @ [input_node],
                              visited := insert input_node (visited st)\<rparr>) xs st =
   st\<lparr>queue := queue st @ xs, visited := visited st \<union> set xs\<rparr>"
  by (induction xs arbitrary: st) auto

lemma enqueue_inputs_eq:
  "enqueue_inputs self = \<lparr>queue = inputs self, visited = set (inputs self), model = self\<rparr>"
  by (simp add: enqueue_inputs_def enqueue_inputs_fold)

subsection \<open>The phases of resolution\<close>

lemma set_output_shapes_Inl:
  "set_output_shapes T ns os = Inl e \<Longrightarrow>
   e = IndexError \<and> (\<exists>n \<in> set ns. in_hypermodels T n = [])"
  by (induction ns arbitrary: os) (auto split: list.splits)

lemma set_output_shapes_Inr:
  "set_output_shapes T ns os = Inr os' \<Longrightarrow> \<forall>n \<in> set ns. in_hypermodels T n \<noteq> []"
  by (induction ns arbitrary: os) (auto split: list.splits)

lemma set_output_shapes_total:
  "\<forall>n \<in> set ns. in_hypermodels T n \<noteq> [] \<Longrightarrow> \<exists>os'. set_output_shapes T ns os = Inr os'"
  by (induction ns arbitrary: os) (auto split: list.splits)

lemma model_inv_output_shape [simp]:
  "model_inv T ins outs d0 (self\<lparr>output_shape := os\<rparr>) = model_inv T ins outs d0 self"
  by (simp add: model_inv_def)

text \<open>The state in which the breadth-first loop starts.\<close>

lemma bfs_inv_start:
  assumes "ids_dense d"
  shows "bfs_inv T (inputs self) (outputs self) d
           (enqueue_inputs (self\<lparr>node_to_id := d, nodes := ns, hypermodels := [],
                                 hypermodel_to_id := []\<rparr>))"
  using assms inputs_reachable [of "inputs self" T]
  by (simp add: enqueue_inputs_eq bfs_inv_def model_inv_def)

lemma build_network_Inr:
  assumes "build_network fuel T self = Some (Inr s)"
  shows "\<exists>d. search_inputs fuel T (inputs self) (outputs self) = Some (Inr d) \<and>
             set (inputs self @ outputs self) \<subseteq> keys d \<and>
             model_inv T (inputs self) (outputs self) d s \<and>
             (\<forall>n \<in> set (outputs self). in_hypermodels T n \<noteq> [])"
proof -
  from assms obtain d where d: "search_inputs fuel T (inputs self) (outputs self) = Some (Inr d)"
    by (auto simp: build_network_def split: option.splits sum.splits)
  let ?ns = "sort_key (\<lambda>x. the (map_of d x)) (map fst d)"
  let ?start = "enqueue_inputs (self\<lparr>node_to_id := d, nodes := ?ns, hypermodels := [],
                                      hypermodel_to_id := []\<rparr>)"
  from assms d have conn: "set (inputs self @ outputs self) \<subseteq> keys d"
    by (auto simp: build_network_def Let_def has_key_keys split: if_splits)
  from assms d obtain st os where st: "bfs fuel T ?start = Some (Inr st)"
    and os: "set_output_shapes T (outputs (model st)) (output_shape (model st)) = Inr os"
    and s: "s = (model st)\<lparr>output_shape := os\<rparr>"
    by (auto simp: build_network_def Let_def split: if_splits option.splits sum.splits)
  have "ids_dense d"
    using search_inputs_outcome [where fuel = fuel and T = T and ins = "inputs self"
        and outs = "outputs self"] d
    by (simp add: ids_inv_def)
  then have "bfs_inv T (inputs self) (outputs self) d ?start"
    by (rule bfs_inv_start)
  then have "bfs_spec T (inputs self) (outputs self) d (bfs fuel T ?start)"
    by (rule bfs_outcome)
  with st have inv: "model_inv T (inputs self) (outputs self) d (model st)"
    by (simp add: bfs_spec_def bfs_inv_def)
  then have outs: "outputs (model st) = outputs self"
    by (simp add: model_inv_def)
  show ?thesis
    using d conn inv s set_output_shapes_Inr [OF os] outs by auto
qed

lemma error_distinct [simp]:
  "missing_input_error name \<noteq> not_connected_error"
  "missing_input_error name \<noteq> cycle_error"
  "missing_input_error name \<noteq> IndexError"
  "cycle_error \<noteq> not_connected_error"
  "cycle_error \<noteq> IndexError"
  "not_connected_error \<noteq> IndexError"
  "not_connected_error \<noteq> missing_input_error name"
  "cycle_error \<noteq> missing_input_error name"
  "IndexError \<noteq> missing_input_error name"
  "not_connected_error \<noteq> cycle_error"
  "IndexError \<noteq> cycle_error"
  "IndexError \<noteq> not_connected_error"
  by (simp_all add: missing_input_error_def not_connected_error_def cycle_error_def)

lemma build_network_after_search:
  assumes d: "search_inputs fuel T (inputs self) (outputs self) = Some (Inr d)"
  shows "case build_network fuel T self of
           None \<Rightarrow> set (inputs self @ outputs self) \<subseteq> keys d
         | Some (Inl e) \<Rightarrow>
             (e = not_connected_error \<and> \<not> set (inputs self @ outputs self) \<subseteq> keys d) \<or>
             (set (inputs self @ outputs self) \<subseteq> keys d \<and>
              ((\<exists>h. e = missing_input_error (hm_name T h)) \<or>
               (e = IndexError \<and> (\<exists>n \<in> set (outputs self). in_hypermodels T n = []))))
         | Some (Inr s) \<Rightarrow> set (inputs self @ outputs self) \<subseteq> keys d"
proof (cases "set (inputs self @ outputs self) \<subseteq> keys d")
  case False
  then have "\<exists>node \<in> set (inputs self @ outputs self). \<not> has_key d node"
    by (auto simp: has_key_keys)
  then have "build_network fuel T self = Some (Inl not_connected_error)"
    using d unfolding build_network_def by (simp add: Let_def del: set_append)
  with False show ?thesis by simp
next
  case True
  let ?ns = "sort_key (\<lambda>x. the (map_of d x)) (map fst d)"
  let ?start = "enqueue_inputs (self\<lparr>node_to_id := d, nodes := ?ns, hypermodels := [],
                                      hypermodel_to_id := []\<rparr>)"
  from True have conn: "\<not> (\<exists>node \<in> set (inputs self @ outputs self). \<not> has_key d node)"
    by (auto simp: has_key_keys)
  have eq: "build_network fuel T self =
              (case bfs fuel T ?start of
                 None \<Rightarrow> None
               | Some (Inl e) \<Rightarrow> Some (Inl e)
               | Some (Inr st) \<Rightarrow>
                   (case set_output_shapes T (outputs (model st)) (output_shape (model st)) of
                      Inl e \<Rightarrow> Some (Inl e)
                    | Inr os \<Rightarrow> Some (Inr ((model st)\<lparr>output_shape := os\<rparr>))))"
    using d conn unfolding build_network_def by (simp add: Let_def del: set_append)
  have "ids_dense d"
    using search_inputs_outcome [where fuel = fuel and T = T and ins = "inputs self"
        and outs = "outputs self"] d
    by (simp add: ids_inv_def)
  then have "bfs_inv T (inputs self) (outputs self) d ?start"
    by (rule bfs_inv_start)
  then have spec: "bfs_spec T (inputs self) (outputs self) d (bfs fuel T ?start)"
    by (rule bfs_outcome)
  show ?thesis
  proof (cases "bfs fuel T ?start")
    case None
    with eq True show ?thesis by simp
  next
    case (Some r)
    show ?thesis
    proof (cases r)
      case (Inl e)
      with Some spec eq True show ?thesis by (simp add: bfs_spec_def)
    next
      case (Inr st)
      with Some spec have "outputs (model st) = outputs self"
        by (simp add: bfs_spec_def bfs_inv_def model_inv_def)
      with Some Inr eq True show ?thesis
        by (auto split: sum.splits dest: set_output_shapes_Inl)
    qed
  qed
qed

lemma build_network_Inl:
  assumes "build_network fuel T self = Some (Inl e)"
  shows "(e = cycle_error \<and> (\<exists>c \<in> reachable_from T (inputs self). (c, c) \<in> (edges T)\<^sup>+)) \<or>
         (e = not_connected_error \<and>
            \<not> set (inputs self @ outputs self) \<subseteq> on_path T (inputs self) (outputs self)) \<or>
         (\<exists>h. e = missing_input_error (hm_name T h)) \<or>
         (e = IndexError \<and> (\<exists>n \<in> set (outputs self). in_hypermodels T n = []))"
proof (cases "search_inputs fuel T (inputs self) (outputs self)")
  case None
  with assms show ?thesis by (simp add: build_network_def)
next
  case (Some r)
  note out = search_inputs_outcome [where fuel = fuel and T = T and ins = "inputs self"
        and outs = "outputs self"]
  show ?thesis
  proof (cases r)
    case (Inl e')
    with Some assms have "e' = e" by (simp add: build_network_def)
    with Some Inl out show ?thesis by simp
  next
    case (Inr d)
    with Some out have "keys d = on_path T (inputs self) (outputs self)" by simp
    with build_network_after_search [OF Some [unfolded Inr]] assms show ?thesis
      by auto
  qed
qed

subsection \<open>Auxiliary facts about resolution and the example topologies\<close>


lemma acyclic_if_search_returns:
  "search_inputs fuel T ins outs = Some (Inr d) \<Longrightarrow>
   \<forall>c \<in> reachable_from T ins. (c, c) \<notin> (edges T)\<^sup>+"
  using search_inputs_outcome [where fuel = fuel and T = T and ins = ins and outs = outs]
  by simp

lemma search_inputs_keys:
  "search_inputs fuel T ins outs = Some (Inr d) \<Longrightarrow> keys d = on_path T ins outs"
  using search_inputs_outcome [where fuel = fuel and T = T and ins = ins and outs = outs]
  by simp



lemma bfs_empty_queue: "queue st = [] \<Longrightarrow> bfs fuel T st = Some (Inr st)"
  by (cases fuel) simp_all

lemma set_output_shapes_IndexError:
  "\<exists>n \<in> set ns. in_hypermodels T n = [] \<Longrightarrow> set_output_shapes T ns os = Inl IndexError"
  by (induction ns arbitrary: os) (auto split: list.splits)

lemma add_hypermodel_missing:
  assumes "n \<in> set (hm_inputs T h)" "n \<notin> keys (node_to_id self)" "n \<notin> set (hm_outputs T h)"
  shows "add_hypermodel T h self = Inl (missing_input_error (hm_name T h))"
proof -
  have "\<not> has_key (fold add_node (hm_outputs T h) (node_to_id self)) n"
    using assms(2,3) by (simp add: has_key_keys)
  with assms(1) show ?thesis
    by (auto simp: add_hypermodel_def Let_def)
qed

lemma admitted_blocks_no_self_loop:
  assumes ok: "build_network fuel T self = Some (Inr s)"
    and consistent: "\<forall>h n. n \<in> set (hm_inputs T h) \<longrightarrow> h \<in> set (out_hypermodels T n)"
    and h: "h \<in> set (hypermodels s)"
  shows "set (hm_inputs T h) \<inter> set (hm_outputs T h) = {}"
proof (rule ccontr)
  assume "set (hm_inputs T h) \<inter> set (hm_outputs T h) \<noteq> {}"
  then obtain x where xi: "x \<in> set (hm_inputs T h)" and xo: "x \<in> set (hm_outputs T h)"
    by blast
  from build_network_Inr [OF ok] obtain d where
    d: "search_inputs fuel T (inputs self) (outputs self) = Some (Inr d)"
    and inv: "model_inv T (inputs self) (outputs self) d s"
    by blast
  from inv h obtain v where v: "v \<in> reachable_from T (inputs self)"
    and hv: "h \<in> set (out_hypermodels T v)"
    unfolding model_inv_def by blast
  from hv xo have "(v, x) \<in> edges T" by (rule edgeI)
  with v closed_reachable_from [of T "inputs self"] have xr: "x \<in> reachable_from T (inputs self)"
    by (auto simp: closed_under_def)
  from consistent xi have "h \<in> set (out_hypermodels T x)" by blast
  then have "(x, x) \<in> edges T" using xo by (rule edgeI)
  then have "(x, x) \<in> (edges T)\<^sup>+" by (rule r_into_trancl)
  with acyclic_if_search_returns [OF d] xr show False by blast
qed

lemma single_block_resolution_aux:
  assumes "a \<noteq> t" "inputs self = [a]" "outputs self = [t]" "out_hypermodels T a = [b]"
    "out_hypermodels T t = []" "hm_inputs T b = [a]" "hm_outputs T b = [t]"
    "in_hypermodels T t = [b]"
  shows "\<exists>s. build_network (Suc (Suc fuel)) T self = Some (Inr s) \<and>
             node_to_id s = [(t, 0), (a, 1)] \<and> hypermodels s = [b]"
proof -
  have d: "search_inputs (Suc (Suc fuel)) T [a] [t] = Some (Inr [(t, 0), (a, 1)])"
    using assms
    by (simp add: search_inputs_def search_input_def search_output_def add_node_def has_key_def
        set_remove_def)
  show ?thesis
    using assms d
    by (simp add: build_network_def has_key_def enqueue_inputs_eq bfs_empty_queue
        visit_hypermodel_def add_hypermodel_def add_node_def enqueue_output_def)
qed

lemma ids_order_after_resolution:
  assumes ok: "build_network fuel T self = Some (Inr s)"
    and ni: "(n, i) \<in> set (node_to_id s)"
    and mj: "(m, j) \<in> set (node_to_id s)"
    and n: "n \<in> on_path T (inputs self) (outputs self)"
    and m: "m \<in> on_path T (inputs self) (outputs self)"
    and e: "(n, m) \<in> edges T"
  shows "j < i"
proof -
  from build_network_Inr [OF ok] obtain d where
    d: "search_inputs fuel T (inputs self) (outputs self) = Some (Inr d)"
    and inv: "model_inv T (inputs self) (outputs self) d s"
    by blast
  from inv obtain ext where ext: "node_to_id s = d @ ext"
    and dense: "ids_dense (node_to_id s)"
    unfolding model_inv_def by blast
  from dense have dist: "distinct (map fst (node_to_id s))"
    by (simp add: ids_dense_def)
  have k: "keys d = on_path T (inputs self) (outputs self)"
    using d by (rule search_inputs_keys)
  have dinv: "ids_inv T (outputs self) (reachable_from T (inputs self)) d"
    using search_inputs_outcome [where fuel = fuel and T = T and ins = "inputs self"
        and outs = "outputs self"] d
    by simp
  from n k have "n \<in> fst ` set d"
    by (simp add: keys_def)
  then obtain i' where i': "(n, i') \<in> set d"
    by force
  then have "(n, i') \<in> set (node_to_id s)"
    by (simp add: ext)
  with dist ni have "i' = i"
    by (metis eq_key_imp_eq_value)
  with i' have nd: "(n, i) \<in> set d" by simp
  from m have "m \<in> leads_to T (outputs self)"
    by (simp add: on_path_def)
  with dinv nd e obtain j' where j': "j' < i" "(m, j') \<in> set d"
    unfolding ids_inv_def by blast
  then have "(m, j') \<in> set (node_to_id s)"
    by (simp add: ext)
  with dist mj have "j = j'"
    by (metis eq_key_imp_eq_value)
  with j' show ?thesis by simp
qed

lemma ids_dense_after_resolution:
  assumes ok: "build_network fuel T self = Some (Inr s)"
  shows "map snd (node_to_id s) = [0..<length (node_to_id s)]"
  using build_network_Inr [OF ok] unfolding model_inv_def ids_dense_def by blast

lemma skip_topology_reachable: "reachable_from skip_topology [0] \<subseteq> {0, 1, 2, 3}"
  by (rule reachable_from_subset)
    (auto intro!: closed_underI simp: skip_topology_def make_topology_def split: if_splits)

subsection \<open>The outcome does not depend on the fuel\<close>

lemma search_output_mono:
  assumes "search_output rec x t = Some r"
    and "\<And>m s r. rec m s = Some r \<Longrightarrow> rec' m s = Some r"
  shows "search_output rec' x t = Some r"
proof -
  obtain reached s where t: "t = (reached, s)" by (cases t)
  show ?thesis
  proof (cases "x \<in> in_stack_nodes s \<or> x \<in> visited_nodes s")
    case True
    with assms(1) show ?thesis
      by (auto simp: search_output_def t)
  next
    case False
    with assms(1) obtain r0 where r0: "rec x s = Some r0"
      by (cases "rec x s") (auto simp: search_output_def t)
    then have "rec' x s = Some r0" by (rule assms(2))
    with r0 assms(1) False show ?thesis
      by (simp add: search_output_def t)
  qed
qed

lemma search_network_fuel_mono:
  "search_network fuel T outs n st = Some r \<Longrightarrow> fuel \<le> fuel' \<Longrightarrow>
   search_network fuel' T outs n st = Some r"
proof (induction fuel arbitrary: fuel' n st r)
  case 0
  then show ?case by simp
next
  case (Suc fuel)
  from Suc.prems(2) obtain g where g: "fuel' = Suc g" "fuel \<le> g"
    by (cases fuel') auto
  let ?st1 = "st\<lparr>visited_nodes := insert n (visited_nodes st),
               in_stack_nodes := insert n (in_stack_nodes st)\<rparr>"
  let ?loop = "\<lambda>k. for_each (\<lambda>h. for_each (search_output (search_network k T outs)) (hm_outputs T h))
                 (out_hypermodels T n) (n \<in> set outs, ?st1)"
  from Suc.prems(1) obtain r0 where r0: "?loop fuel = Some r0"
    by (cases "?loop fuel") (auto simp: Let_def)
  have inner: "for_each (search_output (search_network g T outs)) xs t = Some q"
    if "for_each (search_output (search_network fuel T outs)) xs t = Some q" for xs t q
    using that
  proof (rule for_each_mono)
    fix x u q'
    assume "search_output (search_network fuel T outs) x u = Some q'"
    then show "search_output (search_network g T outs) x u = Some q'"
      by (rule search_output_mono) (rule Suc.IH [OF _ g(2)])
  qed
  have "?loop g = Some r0"
    using r0 by (rule for_each_mono) (rule inner)
  with r0 Suc.prems(1) show ?case
    by (simp add: g(1) Let_def)
qed

lemma search_inputs_fuel_mono:
  assumes "search_inputs fuel T ins outs = Some r" and "fuel \<le> fuel'"
  shows "search_inputs fuel' T ins outs = Some r"
  using assms(1) unfolding search_inputs_def
proof (rule for_each_mono)
  fix x d q
  assume a: "search_input fuel T outs x d = Some q"
  let ?st = "\<lparr>in_stack_nodes = {}, visited_nodes = {}, ids = d\<rparr>"
  from a obtain r0 where r0: "search_network fuel T outs x ?st = Some r0"
    by (cases "search_network fuel T outs x ?st") (auto simp: search_input_def)
  then have "search_network fuel' T outs x ?st = Some r0"
    using assms(2) by (rule search_network_fuel_mono)
  with r0 a show "search_input fuel' T outs x d = Some q"
    by (simp add: search_input_def)
qed

lemma bfs_fuel_mono:
  "bfs fuel T st = Some r \<Longrightarrow> fuel \<le> fuel' \<Longrightarrow> bfs fuel' T st = Some r"
proof (induction fuel arbitrary: fuel' st)
  case 0
  then show ?case
    by (cases "queue st") (simp_all add: bfs_empty_queue)
next
  case (Suc fuel)
  from Suc.prems(2) obtain g where g: "fuel' = Suc g" "fuel \<le> g"
    by (cases fuel') auto
  show ?case
  proof (cases "queue st")
    case Nil
    with Suc.prems(1) show ?thesis by (simp add: bfs_empty_queue)
  next
    case (Cons n rest)
    let ?loop = "for_each (visit_hypermodel T) (out_hypermodels T n) (st\<lparr>queue := rest\<rparr>)"
    from Suc.prems(1) Cons obtain r0 where r0: "?loop = Some r0"
      by (cases ?loop) auto
    show ?thesis
    proof (cases r0)
      case (Inl e)
      with r0 Cons Suc.prems(1) show ?thesis by (auto simp: g(1))
    next
      case (Inr st')
      with r0 Cons Suc.prems(1) have "bfs fuel T st' = Some r" by simp
      then have "bfs g T st' = Some r" using g(2) by (rule Suc.IH)
      with r0 Inr Cons show ?thesis by (simp add: g(1))
    qed
  qed
qed

lemma build_network_fuel_mono:
  assumes "build_network fuel T self = Some r" and "fuel \<le> fuel'"
  shows "build_network fuel' T self = Some r"
proof -
  from assms(1) obtain r0 where r0: "search_inputs fuel T (inputs self) (outputs self) = Some r0"
    by (cases "search_inputs fuel T (inputs self) (outputs self)") (auto simp: build_network_def)
  then have r0': "search_inputs fuel' T (inputs self) (outputs self) = Some r0"
    using assms(2) by (rule search_inputs_fuel_mono)
  show ?thesis
  proof (cases r0)
    case (Inl e)
    with r0 r0' assms(1) show ?thesis by (simp add: build_network_def)
  next
    case (Inr d)
    let ?ns = "sort_key (\<lambda>x. the (map_of d x)) (map fst d)"
    let ?start = "enqueue_inputs (self\<lparr>node_to_id := d, nodes := ?ns, hypermodels := [],
                                        hypermodel_to_id := []\<rparr>)"
    show ?thesis
    proof (cases "\<exists>node \<in> set (inputs self @ outputs self). \<not> has_key d node")
      case True
      with r0 r0' Inr assms(1) show ?thesis
        unfolding build_network_def by (simp add: Let_def del: set_append)
    next
      case False
      with r0 Inr assms(1) obtain q where q: "bfs fuel T ?start = Some q"
        unfolding build_network_def
        by (cases "bfs fuel T ?start") (auto simp: Let_def simp del: set_append)
      then have q': "bfs fuel' T ?start = Some q"
        using assms(2) by (rule bfs_fuel_mono)
      from False r0 r0' Inr assms(1) q q' show ?thesis
        unfolding build_network_def by (simp add: Let_def del: set_append)
    qed
  qed
qed

lemma build_network_fuel_independent:
  assumes "build_network fuel T self = Some r" and "build_network fuel' T self = Some r'"
  shows "r' = r"
proof (cases "fuel \<le> fuel'")
  case True
  with assms(1) have "build_network fuel' T self = Some r" by (rule build_network_fuel_mono)
  with assms(2) show ?thesis by simp
next
  case False
  then have "fuel' \<le> fuel" by simp
  with assms(2) have "build_network fuel T self = Some r'" by (rule build_network_fuel_mono)
  with assms(1) show ?thesis by simp
qed

subsection \<open>The \<^verbatim>\<open>output_shape\<close> attributes do not influence resolution\<close>

lemma for_each_map:
  assumes "\<And>x s. x \<in> set xs \<Longrightarrow> body x (g s) = map_option (map_sum id g) (body x s)"
  shows "for_each body xs (g s) = map_option (map_sum id g) (for_each body xs s)"
  using assms
proof (induction xs arbitrary: s)
  case Nil
  show ?case by simp
next
  case (Cons x xs)
  have IH: "for_each body xs (g s') = map_option (map_sum id g) (for_each body xs s')" for s'
    by (rule Cons.IH) (simp add: Cons.prems)
  have hd: "body x (g s) = map_option (map_sum id g) (body x s)"
    by (rule Cons.prems) simp
  show ?case
  proof (cases "body x s")
    case None
    with hd show ?thesis by simp
  next
    case (Some r)
    with hd IH show ?thesis by (cases r) (simp_all add: id_def)
  qed
qed

lemma add_hypermodel_output_shape:
  "add_hypermodel T h (self\<lparr>output_shape := os\<rparr>) =
   map_sum id (\<lambda>s. s\<lparr>output_shape := os\<rparr>) (add_hypermodel T h self)"
  by (simp add: add_hypermodel_def Let_def)

lemma enqueue_output_with_shape:
  "enqueue_output n (with_output_shape os st) = with_output_shape os (enqueue_output n st)"
  by (simp add: enqueue_output_def with_output_shape_def)

lemma fold_enqueue_output_with_shape:
  "fold enqueue_output ns (with_output_shape os st) =
   with_output_shape os (fold enqueue_output ns st)"
  by (induction ns arbitrary: st) (simp_all add: enqueue_output_with_shape)

lemma visit_hypermodel_with_shape:
  "visit_hypermodel T h (with_output_shape os st) =
   map_option (map_sum id (with_output_shape os)) (visit_hypermodel T h st)"
proof (cases "add_hypermodel T h (model st)")
  case (Inl e)
  then show ?thesis
    by (simp add: visit_hypermodel_def with_output_shape_def add_hypermodel_output_shape)
next
  case (Inr self')
  have "fold enqueue_output (hm_outputs T h) (with_output_shape os (st\<lparr>model := self'\<rparr>)) =
        with_output_shape os (fold enqueue_output (hm_outputs T h) (st\<lparr>model := self'\<rparr>))"
    by (rule fold_enqueue_output_with_shape)
  moreover have "with_output_shape os (st\<lparr>model := self'\<rparr>) =
        st\<lparr>model := (model st)\<lparr>output_shape := os\<rparr>, model := self'\<lparr>output_shape := os\<rparr>\<rparr>"
    by (simp add: with_output_shape_def)
  ultimately show ?thesis
    using Inr
    by (simp add: visit_hypermodel_def with_output_shape_def add_hypermodel_output_shape)
qed

lemma bfs_with_shape:
  "bfs fuel T (with_output_shape os st) =
   map_option (map_sum id (with_output_shape os)) (bfs fuel T st)"
proof (induction fuel arbitrary: st)
  case 0
  show ?case
    by (cases "queue st") (simp_all add: with_output_shape_def)
next
  case (Suc fuel)
  show ?case
  proof (cases "queue st")
    case Nil
    then show ?thesis by (simp add: with_output_shape_def)
  next
    case (Cons n rest)
    have q: "(with_output_shape os st)\<lparr>queue := rest\<rparr> = with_output_shape os (st\<lparr>queue := rest\<rparr>)"
      by (simp add: with_output_shape_def)
    have loop: "for_each (visit_hypermodel T) (out_hypermodels T n)
                  (with_output_shape os (st\<lparr>queue := rest\<rparr>)) =
                map_option (map_sum id (with_output_shape os))
                  (for_each (visit_hypermodel T) (out_hypermodels T n) (st\<lparr>queue := rest\<rparr>))"
      by (rule for_each_map) (rule visit_hypermodel_with_shape)
    have qs: "queue (with_output_shape os st) = n # rest"
      using Cons by (simp add: with_output_shape_def)
    show ?thesis
    proof (cases "for_each (visit_hypermodel T) (out_hypermodels T n) (st\<lparr>queue := rest\<rparr>)")
      case None
      with Cons qs q loop show ?thesis by simp
    next
      case (Some r)
      show ?thesis
      proof (cases r)
        case (Inl e)
        with Some Cons qs q loop show ?thesis by simp
      next
        case (Inr st')
        with Some Cons qs q loop Suc.IH [of st'] show ?thesis by simp
      qed
    qed
  qed
qed

lemma set_output_shapes_independent:
  "map_sum id (\<lambda>_. ()) (set_output_shapes T ns os) =
   map_sum id (\<lambda>_. ()) (set_output_shapes T ns os')"
  by (induction ns arbitrary: os os') (auto split: list.splits)

lemma build_network_same_declaration:
  assumes ins: "inputs self' = inputs self" and outs: "outputs self' = outputs self"
  shows "map_option (map_sum id resolution_of) (build_network fuel T self') =
         map_option (map_sum id resolution_of) (build_network fuel T self)"
proof (cases "search_inputs fuel T (inputs self) (outputs self)")
  case None
  then show ?thesis by (simp add: build_network_def ins outs)
next
  case (Some r)
  show ?thesis
  proof (cases r)
    case (Inl e)
    with Some show ?thesis by (simp add: build_network_def ins outs)
  next
    case (Inr d)
    let ?ns = "sort_key (\<lambda>x. the (map_of d x)) (map fst d)"
    let ?m = "self\<lparr>node_to_id := d, nodes := ?ns, hypermodels := [], hypermodel_to_id := []\<rparr>"
    let ?m' = "self'\<lparr>node_to_id := d, nodes := ?ns, hypermodels := [], hypermodel_to_id := []\<rparr>"
    show ?thesis
    proof (cases "\<exists>node \<in> set (inputs self @ outputs self). \<not> has_key d node")
      case True
      with Some Inr show ?thesis
        unfolding build_network_def by (simp add: Let_def ins outs del: set_append)
    next
      case False
      have m': "?m' = ?m\<lparr>output_shape := output_shape self'\<rparr>"
        using ins outs by (cases self; cases self') simp
      have start: "enqueue_inputs ?m' = with_output_shape (output_shape self') (enqueue_inputs ?m)"
        unfolding m' by (simp add: enqueue_inputs_eq with_output_shape_def)
      have b: "bfs fuel T (enqueue_inputs ?m') =
               map_option (map_sum id (with_output_shape (output_shape self')))
                 (bfs fuel T (enqueue_inputs ?m))"
        unfolding start by (rule bfs_with_shape)
      have eq: "build_network fuel T self =
              (case bfs fuel T (enqueue_inputs ?m) of
                 None \<Rightarrow> None
               | Some (Inl e) \<Rightarrow> Some (Inl e)
               | Some (Inr st) \<Rightarrow>
                   (case set_output_shapes T (outputs (model st)) (output_shape (model st)) of
                      Inl e \<Rightarrow> Some (Inl e)
                    | Inr os \<Rightarrow> Some (Inr ((model st)\<lparr>output_shape := os\<rparr>))))"
        using Some Inr False unfolding build_network_def by (simp add: Let_def del: set_append)
      have eq': "build_network fuel T self' =
              (case bfs fuel T (enqueue_inputs ?m') of
                 None \<Rightarrow> None
               | Some (Inl e) \<Rightarrow> Some (Inl e)
               | Some (Inr st) \<Rightarrow>
                   (case set_output_shapes T (outputs (model st)) (output_shape (model st)) of
                      Inl e \<Rightarrow> Some (Inl e)
                    | Inr os \<Rightarrow> Some (Inr ((model st)\<lparr>output_shape := os\<rparr>))))"
        using Some Inr False unfolding build_network_def
        by (simp add: Let_def ins outs del: set_append)
      show ?thesis
      proof (cases "bfs fuel T (enqueue_inputs ?m)")
        case None
        with b eq eq' show ?thesis by simp
      next
        case bfs: (Some q)
        show ?thesis
        proof (cases q)
          case (Inl e)
          with bfs b eq eq' show ?thesis by simp
        next
          case (Inr st)
          let ?os' = "output_shape self'"
          from bfs Inr b have b': "bfs fuel T (enqueue_inputs ?m') = Some (Inr (with_output_shape ?os' st))"
            by simp
          have ind: "map_sum id (\<lambda>_. ()) (set_output_shapes T (outputs (model st)) ?os') =
                map_sum id (\<lambda>_. ()) (set_output_shapes T (outputs (model st)) (output_shape (model st)))"
            by (rule set_output_shapes_independent)
          show ?thesis
          proof (cases "set_output_shapes T (outputs (model st)) (output_shape (model st))")
            case l: (Inl e)
            with ind have "set_output_shapes T (outputs (model st)) ?os' = Inl e"
              by (cases "set_output_shapes T (outputs (model st)) ?os'") simp_all
            with l bfs Inr b' eq eq' show ?thesis
              by (simp add: with_output_shape_def)
          next
            case r: (Inr os)
            with ind obtain os2 where "set_output_shapes T (outputs (model st)) ?os' = Inr os2"
              by (cases "set_output_shapes T (outputs (model st)) ?os'") simp_all
            with r bfs Inr b' eq eq' show ?thesis
              by (simp add: with_output_shape_def resolution_of_def)
          qed
        qed
      qed
    qed
  qed
qed

lemma build_network_declaration:
  assumes "build_network fuel T self = Some (Inr s)"
  shows "inputs s = inputs self" and "outputs s = outputs self"
  using build_network_Inr [OF assms] unfolding model_inv_def by auto

lemma same_declaration_same_resolution:
  assumes ins: "inputs self' = inputs self" and outs: "outputs self' = outputs self"
    and r: "build_network fuel T self = Some (Inr s)"
    and r': "build_network fuel' T self' = Some (Inr s')"
  shows "resolution_of s' = resolution_of s"
proof -
  let ?f = "max fuel fuel'"
  have "build_network ?f T self = Some (Inr s)"
    using r by (rule build_network_fuel_mono) simp
  moreover have "build_network ?f T self' = Some (Inr s')"
    using r' by (rule build_network_fuel_mono) simp
  ultimately show ?thesis
    using build_network_same_declaration [OF ins outs, of ?f T] by simp
qed

lemma resolution_repeatable:
  assumes r: "build_network fuel T self = Some (Inr s1)"
  shows "\<exists>s2. build_network fuel T s1 = Some (Inr s2)"
proof -
  note d = build_network_declaration [OF r]
  from build_network_same_declaration [OF d, of fuel T] r
  have "map_option (map_sum id resolution_of) (build_network fuel T s1) =
        Some (Inr (resolution_of s1))"
    by simp
  then show ?thesis
    by (cases "build_network fuel T s1") (auto simp: map_sum_def split: sum.splits)
qed

subsection \<open>The blocks \<^verbatim>\<open>build\<close> invokes\<close>

lemma build_hypermodels_invoked:
  "build_hypermodels C T d hp hs (invoked, real_nodes) = (invoked', r) \<Longrightarrow>
   \<exists>k \<le> length hs. invoked' = invoked @ take k hs \<and> ((\<exists>rn. r = Inr rn) \<longrightarrow> k = length hs)"
proof (induction hs arbitrary: invoked real_nodes)
  case Nil
  then show ?case by auto
next
  case (Cons h hs)
  show ?case
  proof (cases "gather d real_nodes (hm_inputs T h)")
    case (Inl e)
    with Cons.prems have "invoked' = invoked @ take 0 (h # hs)" "r = Inl e"
      by auto
    then show ?thesis by blast
  next
    case ins: (Inr ins)
    let ?outs = "hypermodel_build C h hp ins"
    show ?thesis
    proof (cases "record_outputs d (zip (hm_outputs T h) ?outs) real_nodes")
      case (Inl e)
      with ins Cons.prems have "invoked' = invoked @ take 1 (h # hs)" "r = Inl e"
        by (auto simp: Let_def)
      then show ?thesis by (intro exI [of _ 1]) auto
    next
      case (Inr rn)
      with ins Cons.prems
      have "build_hypermodels C T d hp hs (invoked @ [h], rn) = (invoked', r)"
        by (simp add: Let_def)
      from Cons.IH [OF this] obtain k where k: "k \<le> length hs"
        "invoked' = (invoked @ [h]) @ take k hs" "(\<exists>rn. r = Inr rn) \<longrightarrow> k = length hs"
        by blast
      then show ?thesis
        by (intro exI [of _ "Suc k"]) auto
    qed
  qed
qed

text \<open>
  A call of \<^verbatim>\<open>build\<close> invokes an initial segment of \<^verbatim>\<open>self.hypermodels\<close>, each
  block once and in that order, and all of it when the call returns a model.
\<close>

lemma build_invokes_initial_segment:
  "\<exists>k \<le> length (hypermodels self).
     fst (build C T self hp) = take k (hypermodels self) \<and>
     ((\<exists>m. snd (build C T self hp) = Inr m) \<longrightarrow> k = length (hypermodels self))"
proof (cases "build_inputs C (node_to_id self) hp (inputs self) Map.empty")
  case (Inl e)
  then have "fst (build C T self hp) = take 0 (hypermodels self)"
    and "snd (build C T self hp) = Inl e"
    by (simp_all add: build_def)
  then show ?thesis by (intro exI [of _ 0]) auto
next
  case (Inr rn0)
  obtain invoked r where br: "build_hypermodels C T (node_to_id self) hp (hypermodels self) ([], rn0) = (invoked, r)"
    by (cases "build_hypermodels C T (node_to_id self) hp (hypermodels self) ([], rn0)")
  from build_hypermodels_invoked [OF br] obtain k where k: "k \<le> length (hypermodels self)"
    "invoked = take k (hypermodels self)" "(\<exists>rn. r = Inr rn) \<longrightarrow> k = length (hypermodels self)"
    by auto
  have f: "fst (build C T self hp) = invoked"
    using Inr br by (auto simp: build_def split: sum.splits)
  have s: "(\<exists>m. snd (build C T self hp) = Inr m) \<longrightarrow> (\<exists>rn. r = Inr rn)"
    using Inr br by (auto simp: build_def split: sum.splits)
  from k f s show ?thesis by blast
qed

lemma build_returns_block_order:
  "snd (build C T self hp) = Inr m \<Longrightarrow> fst (build C T self hp) = hypermodels self"
  using build_invokes_initial_segment [of self C T hp] by auto

lemma resolved_blocks_distinct:
  "build_network fuel T self = Some (Inr s) \<Longrightarrow> distinct (hypermodels s)"
  using build_network_Inr [of fuel T self s] unfolding model_inv_def by blast

subsection \<open>Enough fuel for the breadth-first loop\<close>

text \<open>
  Every node that enters the queue is reachable and was not marked visited before, so
  the length of the queue plus the number of reachable nodes not yet marked never
  grows, and each iteration takes one node from the queue.
\<close>

lemma enqueue_output_measure:
  assumes "finite R" "n \<in> R"
  shows "length (queue (enqueue_output n st)) + card (R - visited (enqueue_output n st)) \<le>
         length (queue st) + card (R - visited st)"
proof (cases "n \<notin> visited st \<and> has_key (node_to_id (model st)) n")
  case False
  then show ?thesis by (auto simp: enqueue_output_def)
next
  case True
  then have mem: "n \<in> R - visited st" using assms(2) by simp
  have eq: "R - insert n (visited st) = (R - visited st) - {n}" by auto
  have "finite (R - visited st)" using assms(1) by simp
  then have "Suc (card ((R - visited st) - {n})) = card (R - visited st)"
    using mem by (rule card_Suc_Diff1)
  then have "Suc (card (R - insert n (visited st))) = card (R - visited st)"
    by (simp only: eq)
  with True show ?thesis by (simp add: enqueue_output_def)
qed

lemma fold_enqueue_output_measure:
  assumes "finite R" "set ns \<subseteq> R"
  shows "length (queue (fold enqueue_output ns st)) + card (R - visited (fold enqueue_output ns st)) \<le>
         length (queue st) + card (R - visited st)"
  using assms(2)
proof (induction ns arbitrary: st)
  case Nil
  show ?case by simp
next
  case (Cons n ns)
  have "length (queue (fold enqueue_output ns (enqueue_output n st))) +
        card (R - visited (fold enqueue_output ns (enqueue_output n st))) \<le>
        length (queue (enqueue_output n st)) + card (R - visited (enqueue_output n st))"
    by (rule Cons.IH) (use Cons.prems in simp)
  also have "\<dots> \<le> length (queue st) + card (R - visited st)"
    by (rule enqueue_output_measure) (use assms(1) Cons.prems in simp_all)
  finally show ?case by simp
qed

lemma visit_hypermodel_measure:
  assumes "finite R" "set (hm_outputs T h) \<subseteq> R"
    and "visit_hypermodel T h st = Some (Inr st')"
  shows "length (queue st') + card (R - visited st') \<le> length (queue st) + card (R - visited st)"
proof (cases "\<exists>output_node \<in> set (hm_outputs T h). has_key (node_to_id (model st)) output_node")
  case False
  with assms(3) show ?thesis by (simp add: visit_hypermodel_def)
next
  case True
  with assms(3) obtain self' where
    st': "st' = fold enqueue_output (hm_outputs T h) (st\<lparr>model := self'\<rparr>)"
    by (auto simp: visit_hypermodel_def split: sum.splits)
  show ?thesis
    unfolding st'
    using fold_enqueue_output_measure [OF assms(1,2), of "st\<lparr>model := self'\<rparr>"] by simp
qed

lemma visit_hypermodels_measure:
  assumes fin: "finite R" and outs: "\<forall>h \<in> set hs. set (hm_outputs T h) \<subseteq> R"
    and loop: "for_each (visit_hypermodel T) hs st = Some (Inr st')"
  shows "length (queue st') + card (R - visited st') \<le> length (queue st) + card (R - visited st)"
proof -
  let ?I = "\<lambda>(p::hypermodel list) u.
              length (queue u) + card (R - visited u) \<le> length (queue st) + card (R - visited st)"
  show ?thesis
    using loop
  proof (rule for_each_invariant [where I = ?I])
    show "?I [] st" by simp
  next
    fix p x u u'
    assume a: "?I p u" "x \<in> set hs" "visit_hypermodel T x u = Some (Inr u')"
    from a(2) outs have "set (hm_outputs T x) \<subseteq> R" by blast
    from visit_hypermodel_measure [OF fin this a(3)] a(1)
    show "?I (p @ [x]) u'" by simp
  qed
qed

lemma visit_hypermodel_returns: "visit_hypermodel T h st \<noteq> None"
  by (simp add: visit_hypermodel_def split: sum.splits)

lemma for_each_returns:
  "(\<And>x s. body x s \<noteq> None) \<Longrightarrow> for_each body xs s \<noteq> None"
proof (induction xs arbitrary: s)
  case Nil
  show ?case by simp
next
  case (Cons x xs)
  obtain r where r: "body x s = Some r"
    using Cons.prems [of x s] by (cases "body x s") auto
  show ?case
    using r Cons.IH [OF Cons.prems] by (cases r) simp_all
qed

lemma bfs_returns:
  assumes fin: "finite (reachable_from T ins)"
  shows "bfs_inv T ins outs d0 st \<Longrightarrow>
         length (queue st) + card (reachable_from T ins - visited st) \<le> fuel \<Longrightarrow>
         bfs fuel T st \<noteq> None"
proof (induction fuel arbitrary: st)
  case 0
  then show ?case by (cases "queue st") simp_all
next
  case (Suc fuel)
  let ?R = "reachable_from T ins"
  show ?case
  proof (cases "queue st")
    case Nil
    then show ?thesis by simp
  next
    case (Cons n rest)
    let ?st0 = "st\<lparr>queue := rest\<rparr>"
    let ?loop = "for_each (visit_hypermodel T) (out_hypermodels T n) ?st0"
    from bfs_inv_dequeue [OF Suc.prems(1) Cons]
    have inv0: "bfs_inv T ins outs d0 ?st0" and nR: "n \<in> ?R"
      by simp_all
    have outs: "\<forall>h \<in> set (out_hypermodels T n). set (hm_outputs T h) \<subseteq> ?R"
      using closed_reachable_from [of T ins] nR by (auto simp: closed_under_def edges_def)
    have "?loop \<noteq> None"
      by (rule for_each_returns) (rule visit_hypermodel_returns)
    then obtain r where r: "?loop = Some r" by auto
    show ?thesis
    proof (cases r)
      case (Inl e)
      with r Cons show ?thesis by simp
    next
      case (Inr st')
      have "bfs_spec T ins outs d0 ?loop"
        using inv0 nR subset_refl by (rule visit_hypermodels_loop)
      with r Inr have inv': "bfs_inv T ins outs d0 st'"
        by (simp add: bfs_spec_def)
      from visit_hypermodels_measure [OF fin outs r [unfolded Inr]]
      have "length (queue st') + card (?R - visited st') \<le> length rest + card (?R - visited st)"
        by simp
      with Suc.prems(2) Cons have "length (queue st') + card (?R - visited st') \<le> fuel"
        by simp
      with inv' have "bfs fuel T st' \<noteq> None" by (rule Suc.IH)
      with r Inr Cons show ?thesis by simp
    qed
  qed
qed

text \<open>
  Resolution of a finite topology returns or raises, given fuel for one iteration per
  declared input and per reachable node.
\<close>

lemma build_network_terminates:
  assumes fin: "finite (reachable_from T (inputs self))"
    and fuel: "length (inputs self) + card (reachable_from T (inputs self)) \<le> fuel"
  shows "\<exists>r. build_network fuel T self = Some r"
proof (cases "search_inputs fuel T (inputs self) (outputs self)")
  case None
  with search_inputs_outcome [where fuel = fuel and T = T and ins = "inputs self"
      and outs = "outputs self"] fin fuel
  show ?thesis by simp
next
  case (Some r0)
  show ?thesis
  proof (cases r0)
    case (Inl e)
    with Some show ?thesis by (simp add: build_network_def)
  next
    case (Inr d)
    let ?R = "reachable_from T (inputs self)"
    let ?ns = "sort_key (\<lambda>x. the (map_of d x)) (map fst d)"
    let ?m = "self\<lparr>node_to_id := d, nodes := ?ns, hypermodels := [], hypermodel_to_id := []\<rparr>"
    have "ids_dense d"
      using search_inputs_outcome [where fuel = fuel and T = T and ins = "inputs self"
          and outs = "outputs self"] Some Inr
      by (simp add: ids_inv_def)
    then have inv: "bfs_inv T (inputs self) (outputs self) d (enqueue_inputs ?m)"
      by (rule bfs_inv_start)
    have "card (?R - set (inputs self)) \<le> card ?R"
      using fin by (intro card_mono) auto
    with fuel have "length (queue (enqueue_inputs ?m)) + card (?R - visited (enqueue_inputs ?m)) \<le> fuel"
      by (simp add: enqueue_inputs_eq)
    with fin inv have "bfs fuel T (enqueue_inputs ?m) \<noteq> None"
      by (rule bfs_returns)
    then obtain q where q: "bfs fuel T (enqueue_inputs ?m) = Some q" by auto
    show ?thesis
      using Some Inr q unfolding build_network_def
      by (auto simp: Let_def split: sum.splits simp del: set_append)
  qed
qed

lemma single_block_reachable: "reachable_from single_block_topology [0] \<subseteq> {0, 1}"
  by (rule reachable_from_subset)
    (auto intro!: closed_underI simp: single_block_topology_def make_topology_def split: if_splits)

section \<open>The claims\<close>

text \<open>
  Claim C3. Whenever the declared topology has a directed cycle that is reachable from a
  declared input, graph resolution raises the cycle error
  (\<^verbatim>\<open>ValueError("The network has a cycle.")\<close>) and returns no model state: neither
  \<^verbatim>\<open>node_to_id\<close> nor a block order is produced. The object graph is finite, and the
  fuel covers the nodes reachable from the inputs.
\<close>

theorem cycle_raises_cycle_error:
  assumes "finite (reachable_from T (inputs self))"
    and "c \<in> reachable_from T (inputs self)"
    and "(c, c) \<in> (edges T)\<^sup>+"
    and "card (reachable_from T (inputs self)) \<le> fuel"
  shows "build_network fuel T self = Some (Inl cycle_error)"
proof -
  note out = search_inputs_outcome [where fuel = fuel and T = T and ins = "inputs self" and outs = "outputs self"]
  have "search_inputs fuel T (inputs self) (outputs self) = Some (Inl cycle_error)"
  proof (cases "search_inputs fuel T (inputs self) (outputs self)")
    case None
    with out assms(1,4) show ?thesis by simp
  next
    case (Some r)
    show ?thesis
    proof (cases r)
      case (Inl e)
      with Some out show ?thesis by simp
    next
      case (Inr d)
      with Some out assms(2,3) show ?thesis by auto
    qed
  qed
  then show ?thesis
    by (simp add: build_network_def)
qed

theorem cycle_raises_cycle_error_witness:
  "finite (reachable_from cycle_topology (inputs (init_model [0] [1]))) \<and>
   0 \<in> reachable_from cycle_topology (inputs (init_model [0] [1])) \<and>
   (0, 0) \<in> (edges cycle_topology)\<^sup>+ \<and>
   card (reachable_from cycle_topology (inputs (init_model [0] [1]))) \<le> 2 \<and>
   build_network 2 cycle_topology (init_model [0] [1]) = Some (Inl cycle_error)"
proof -
  have sub: "reachable_from cycle_topology (inputs (init_model [0] [1])) \<subseteq> {0, 1}"
    using cycle_topology_reachable by (simp add: init_model_def)
  have fin: "finite (reachable_from cycle_topology (inputs (init_model [0] [1])))"
    using sub by (rule finite_subset) simp
  have mem: "0 \<in> reachable_from cycle_topology (inputs (init_model [0] [1]))"
    by (simp add: reachable_from_def init_model_def)
  have e01: "(0, 1) \<in> edges cycle_topology"
    by (rule edgeI [of 10]) (simp_all add: cycle_topology_def make_topology_def)
  have e10: "(1, 0) \<in> edges cycle_topology"
    by (rule edgeI [of 11]) (simp_all add: cycle_topology_def make_topology_def)
  have cyc: "(0, 0) \<in> (edges cycle_topology)\<^sup>+"
    using e01 e10 by (rule trancl_into_trancl [OF r_into_trancl])
  have "card (reachable_from cycle_topology (inputs (init_model [0] [1]))) \<le> card {0::nat, 1}"
    using sub by (intro card_mono) simp_all
  then have crd: "card (reachable_from cycle_topology (inputs (init_model [0] [1]))) \<le> 2"
    by simp
  from cycle_raises_cycle_error [OF fin mem cyc crd] fin mem cyc crd
  show ?thesis by simp
qed






text \<open>
  Claim C10. The last loop of \<^verbatim>\<open>_build_network\<close> reads
  \<^verbatim>\<open>output_node.in_hypermodels[0]\<close> unguarded. When every declared output has a
  producing block the loop returns and \<^verbatim>\<open>_build_network\<close> raises no
  \<^verbatim>\<open>IndexError\<close>: on a finite topology it completes or raises one of the three
  diagnostics. When some declared output has no producing block the loop raises
  \<^verbatim>\<open>IndexError\<close>, and resolution never returns normally; for a node declared both as the input and as the output, with no block at
  all, the connectivity check passes and \<^verbatim>\<open>_build_network\<close> ends in
  \<^verbatim>\<open>IndexError\<close>.
\<close>

theorem output_without_producer:
  "((\<forall>n \<in> set outs. in_hypermodels T n \<noteq> []) \<longrightarrow> (\<exists>os'. set_output_shapes T outs os = Inr os')) \<and>
   ((\<exists>n \<in> set outs. in_hypermodels T n = []) \<longrightarrow> set_output_shapes T outs os = Inl IndexError) \<and>
   ((\<forall>n \<in> set (outputs self). in_hypermodels T n \<noteq> []) \<longrightarrow>
      build_network fuel T self = Some (Inl e) \<longrightarrow>
      e = cycle_error \<or> e = not_connected_error \<or> (\<exists>h. e = missing_input_error (hm_name T h))) \<and>
   ((\<forall>n \<in> set (outputs self). in_hypermodels T n \<noteq> []) \<longrightarrow>
    finite (reachable_from T (inputs self)) \<longrightarrow>
    length (inputs self) + card (reachable_from T (inputs self)) \<le> fuel \<longrightarrow>
      (\<exists>s. build_network fuel T self = Some (Inr s)) \<or>
      (\<exists>e. build_network fuel T self = Some (Inl e) \<and>
           (e = cycle_error \<or> e = not_connected_error \<or>
            (\<exists>h. e = missing_input_error (hm_name T h))))) \<and>
   (build_network fuel T self = Some (Inr s) \<longrightarrow>
      (\<forall>n \<in> set (outputs self). in_hypermodels T n \<noteq> [])) \<and>
   (inputs self = [a] \<and> outputs self = [a] \<and> out_hypermodels T a = [] \<and>
    in_hypermodels T a = [] \<longrightarrow>
      search_inputs (Suc fuel) T (inputs self) (outputs self) = Some (Inr [(a, 0)]) \<and>
      build_network (Suc fuel) T self = Some (Inl IndexError))"
proof -
  have p1: "(\<forall>n \<in> set outs. in_hypermodels T n \<noteq> []) \<longrightarrow>
              (\<exists>os'. set_output_shapes T outs os = Inr os')"
    using set_output_shapes_total by blast
  have p2: "(\<exists>n \<in> set outs. in_hypermodels T n = []) \<longrightarrow>
              set_output_shapes T outs os = Inl IndexError"
    using set_output_shapes_IndexError by blast
  have p3: "e = cycle_error \<or> e = not_connected_error \<or>
              (\<exists>h. e = missing_input_error (hm_name T h))"
    if "\<forall>n \<in> set (outputs self). in_hypermodels T n \<noteq> []"
      and "build_network fuel T self = Some (Inl e)"
    using build_network_Inl [OF that(2)] that(1) by blast
  have p3': "(\<exists>s. build_network fuel T self = Some (Inr s)) \<or>
      (\<exists>e. build_network fuel T self = Some (Inl e) \<and>
           (e = cycle_error \<or> e = not_connected_error \<or>
            (\<exists>h. e = missing_input_error (hm_name T h))))"
    if pre: "\<forall>n \<in> set (outputs self). in_hypermodels T n \<noteq> []"
      and fin: "finite (reachable_from T (inputs self))"
      and enough: "length (inputs self) + card (reachable_from T (inputs self)) \<le> fuel"
  proof -
    from build_network_terminates [OF fin enough] obtain r where
      r: "build_network fuel T self = Some r"
      by blast
    show ?thesis
    proof (cases r)
      case (Inl e)
      with r build_network_Inl [of fuel T self e] pre show ?thesis by blast
    next
      case (Inr s)
      with r show ?thesis by blast
    qed
  qed
  have p4: "\<forall>n \<in> set (outputs self). in_hypermodels T n \<noteq> []"
    if "build_network fuel T self = Some (Inr s)"
    using build_network_Inr [OF that] by blast
  have p5: "search_inputs (Suc fuel) T (inputs self) (outputs self) = Some (Inr [(a, 0)]) \<and>
            build_network (Suc fuel) T self = Some (Inl IndexError)"
    if "inputs self = [a] \<and> outputs self = [a] \<and> out_hypermodels T a = [] \<and>
        in_hypermodels T a = []"
  proof -
    have d: "search_inputs (Suc fuel) T (inputs self) (outputs self) = Some (Inr [(a, 0)])"
      using that
      by (simp add: search_inputs_def search_input_def add_node_def has_key_def set_remove_def)
    then have "build_network (Suc fuel) T self = Some (Inl IndexError)"
      using that
      by (simp add: build_network_def has_key_def enqueue_inputs_eq bfs_empty_queue)
    with d show ?thesis by simp
  qed
  from p1 p2 p3 p3' p4 p5 show ?thesis by blast
qed

theorem output_without_producer_witness:
  "inputs (init_model [0] [0]) = [0] \<and> outputs (init_model [0] [0]) = [0] \<and>
   out_hypermodels empty_topology 0 = [] \<and> in_hypermodels empty_topology 0 = [] \<and>
   search_inputs (Suc 0) empty_topology (inputs (init_model [0] [0]))
     (outputs (init_model [0] [0])) = Some (Inr [(0, 0)]) \<and>
   build_network (Suc 0) empty_topology (init_model [0] [0]) = Some (Inl IndexError) \<and>
   set_output_shapes empty_topology [0] (\<lambda>_. None) = Inl IndexError \<and>
   in_hypermodels single_block_topology 1 \<noteq> [] \<and>
   (\<exists>os'. set_output_shapes single_block_topology [1] (\<lambda>_. None) = Inr os') \<and>
   finite (reachable_from single_block_topology (inputs (init_model [0] [1]))) \<and>
   length (inputs (init_model [0] [1])) +
     card (reachable_from single_block_topology (inputs (init_model [0] [1]))) \<le> 3 \<and>
   (\<exists>s. build_network 3 single_block_topology (init_model [0] [1]) = Some (Inr s))"
proof -
  let ?T = single_block_topology and ?M = "init_model [0] [1]"
  have h: "inputs (init_model [0] [0]) = [0] \<and> outputs (init_model [0] [0]) = [0] \<and>
           out_hypermodels empty_topology 0 = [] \<and> in_hypermodels empty_topology 0 = []"
    by (simp add: init_model_def empty_topology_def make_topology_def)
  have h2: "\<exists>n \<in> set [0]. in_hypermodels empty_topology n = []"
    by (simp add: empty_topology_def make_topology_def)
  have h3: "\<forall>n \<in> set [1]. in_hypermodels ?T n \<noteq> []"
    by (simp add: single_block_topology_def make_topology_def)
  note w1 = output_without_producer [where outs = "[0]" and T = empty_topology
      and os = "\<lambda>_. None" and self = "init_model [0] [0]" and fuel = 0 and a = 0]
  note w2 = output_without_producer [where outs = "[1]" and T = ?T
      and os = "\<lambda>_. None" and self = ?M and fuel = 3]
  from w1 [THEN conjunct2, THEN conjunct1] h2
  have a1: "set_output_shapes empty_topology [0] (\<lambda>_. None) = Inl IndexError"
    by (rule mp)
  from w1 h have a2: "search_inputs (Suc 0) empty_topology (inputs (init_model [0] [0]))
     (outputs (init_model [0] [0])) = Some (Inr [(0, 0)]) \<and>
   build_network (Suc 0) empty_topology (init_model [0] [0]) = Some (Inl IndexError)"
    by blast
  from w2 [THEN conjunct1] h3
  have b: "\<exists>os'. set_output_shapes ?T [1] (\<lambda>_. None) = Inr os'"
    by (rule mp)
  have sub: "reachable_from ?T (inputs ?M) \<subseteq> {0, 1}"
    using single_block_reachable by (simp add: init_model_def)
  then have fin: "finite (reachable_from ?T (inputs ?M))"
    by (rule finite_subset) simp
  have "card (reachable_from ?T (inputs ?M)) \<le> card {0::nat, 1}"
    using sub by (intro card_mono) simp_all
  then have enough: "length (inputs ?M) + card (reachable_from ?T (inputs ?M)) \<le> 3"
    by (simp add: init_model_def)
  have pre: "\<forall>n \<in> set (outputs ?M). in_hypermodels ?T n \<noteq> []"
    using h3 by (simp add: init_model_def)
  have ev: "map_option (map_sum id hypermodels) (build_network 3 ?T ?M) = Some (Inr [10])"
    by code_simp
  from w2 pre fin enough
  have "(\<exists>s. build_network 3 ?T ?M = Some (Inr s)) \<or>
        (\<exists>e. build_network 3 ?T ?M = Some (Inl e) \<and>
           (e = cycle_error \<or> e = not_connected_error \<or>
            (\<exists>h. e = missing_input_error (hm_name ?T h))))"
    by blast
  with ev have c: "\<exists>s. build_network 3 ?T ?M = Some (Inr s)"
    by auto
  from h a1 a2 b h3 fin enough c show ?thesis by simp
qed



text \<open>
  Claim C6. \<^verbatim>\<open>_add_hypermodel\<close> admits a block only if every declared input of the
  block carries an identifier: each input had one before the call, unless it is an output
  node of the block itself (the check comes after the block's outputs have received
  theirs). Otherwise it raises
  \<^verbatim>\<open>ValueError("A required input is missing for HyperModel {name}. ")\<close> with the
  block's name. So after a successful resolution every input of every block in
  \<^verbatim>\<open>self.hypermodels\<close> has an identifier, and, when each block is listed among the
  \<^verbatim>\<open>out_hypermodels\<close> of its inputs, no admitted block has an input among its own
  outputs: its inputs carried their identifiers before it was admitted.
\<close>

theorem required_inputs_checked:
  "(add_hypermodel T h self = Inr self' \<longrightarrow>
      set (hm_inputs T h) \<subseteq> keys (node_to_id self') \<and>
      set (hm_inputs T h) \<subseteq> keys (node_to_id self) \<union> set (hm_outputs T h)) \<and>
   ((\<exists>n \<in> set (hm_inputs T h). n \<notin> keys (node_to_id self) \<and> n \<notin> set (hm_outputs T h)) \<longrightarrow>
      add_hypermodel T h self = Inl (missing_input_error (hm_name T h))) \<and>
   (build_network fuel T start = Some (Inr s) \<longrightarrow>
      (\<forall>b \<in> set (hypermodels s). \<forall>n \<in> set (hm_inputs T b). has_key (node_to_id s) n)) \<and>
   (build_network fuel T start = Some (Inr s) \<longrightarrow>
    (\<forall>b n. n \<in> set (hm_inputs T b) \<longrightarrow> b \<in> set (out_hypermodels T n)) \<longrightarrow>
      (\<forall>b \<in> set (hypermodels s). set (hm_inputs T b) \<inter> set (hm_outputs T b) = {}))"
proof -
  have p1: "set (hm_inputs T h) \<subseteq> keys (node_to_id self') \<and>
            set (hm_inputs T h) \<subseteq> keys (node_to_id self) \<union> set (hm_outputs T h)"
    if "add_hypermodel T h self = Inr self'"
    using add_hypermodel_Inr(5,7) [OF that] by simp
  have p2: "add_hypermodel T h self = Inl (missing_input_error (hm_name T h))"
    if "\<exists>n \<in> set (hm_inputs T h). n \<notin> keys (node_to_id self) \<and> n \<notin> set (hm_outputs T h)"
    using that add_hypermodel_missing by blast
  have p3: "\<forall>b \<in> set (hypermodels s). \<forall>n \<in> set (hm_inputs T b). has_key (node_to_id s) n"
    if "build_network fuel T start = Some (Inr s)"
    using build_network_Inr [OF that] unfolding model_inv_def has_key_keys by blast
  have p4: "\<forall>b \<in> set (hypermodels s). set (hm_inputs T b) \<inter> set (hm_outputs T b) = {}"
    if "build_network fuel T start = Some (Inr s)"
      and "\<forall>b n. n \<in> set (hm_inputs T b) \<longrightarrow> b \<in> set (out_hypermodels T n)"
    using admitted_blocks_no_self_loop [OF that] by blast
  from p1 p2 p3 p4 show ?thesis by blast
qed

theorem required_inputs_checked_witness:
  "5 \<in> set (hm_inputs missing_input_topology 10) \<and>
   5 \<notin> keys (node_to_id ((init_model [0] [1])\<lparr>node_to_id := [(1, 0), (0, 1)]\<rparr>)) \<and>
   5 \<notin> set (hm_outputs missing_input_topology 10) \<and>
   add_hypermodel missing_input_topology 10 ((init_model [0] [1])\<lparr>node_to_id := [(1, 0), (0, 1)]\<rparr>) =
     Inl (missing_input_error (hm_name missing_input_topology 10)) \<and>
   build_network 3 missing_input_topology (init_model [0] [1]) =
     Some (Inl (missing_input_error ''block'')) \<and>
   (\<exists>s. build_network 3 single_block_topology (init_model [0] [1]) = Some (Inr s) \<and>
        hypermodels s = [10] \<and> has_key (node_to_id s) 0 \<and>
        set (hm_inputs single_block_topology 10) \<inter> set (hm_outputs single_block_topology 10) = {})"
proof -
  let ?self = "(init_model [0] [1])\<lparr>node_to_id := [(1, 0), (0, 1)]\<rparr>"
  let ?T = single_block_topology and ?M = "init_model [0] [1]"
  have a: "5 \<in> set (hm_inputs missing_input_topology 10)"
    and b: "5 \<notin> keys (node_to_id ?self)"
    and c: "5 \<notin> set (hm_outputs missing_input_topology 10)"
    by (simp_all add: missing_input_topology_def make_topology_def init_model_def keys_def)
  have r1: "add_hypermodel missing_input_topology 10 ?self =
              Inl (missing_input_error (hm_name missing_input_topology 10))"
    using required_inputs_checked [where T = missing_input_topology and h = 10 and self = ?self,
        THEN conjunct2, THEN conjunct1] a b c
    by blast
  have "map_option (map_sum id hypermodels)
          (build_network 3 missing_input_topology (init_model [0] [1])) =
        Some (Inl (missing_input_error ''block''))"
    by code_simp
  then have r2: "build_network 3 missing_input_topology (init_model [0] [1]) =
              Some (Inl (missing_input_error ''block''))"
    by (cases "build_network 3 missing_input_topology (init_model [0] [1])")
      (auto simp: map_sum_def split: sum.splits)
  have "map_option (map_sum id hypermodels) (build_network 3 ?T ?M) = Some (Inr [10])"
    by code_simp
  then obtain s where s: "build_network 3 ?T ?M = Some (Inr s)"
    and hs: "hypermodels s = [10]"
    by (cases "build_network 3 ?T ?M") (auto simp: map_sum_def split: sum.splits)
  note th = required_inputs_checked [where T = ?T and fuel = 3 and start = ?M and s = s,
      THEN conjunct2, THEN conjunct2]
  have "\<forall>b \<in> set (hypermodels s). \<forall>n \<in> set (hm_inputs ?T b). has_key (node_to_id s) n"
    using th [THEN conjunct1] s by (rule mp)
  then have r3: "has_key (node_to_id s) 0"
    by (simp add: hs single_block_topology_def make_topology_def)
  have consistent: "\<forall>b n. n \<in> set (hm_inputs ?T b) \<longrightarrow> b \<in> set (out_hypermodels ?T n)"
    by (simp add: single_block_topology_def make_topology_def)
  have "\<forall>b \<in> set (hypermodels s). set (hm_inputs ?T b) \<inter> set (hm_outputs ?T b) = {}"
    using th [THEN conjunct2] s consistent by blast
  then have r4: "set (hm_inputs ?T 10) \<inter> set (hm_outputs ?T 10) = {}"
    by (simp add: hs)
  from a b c r1 r2 s hs r3 r4 show ?thesis by blast
qed

text \<open>
  Claim C4, as stated, fails: identifiers are assigned when a search call returns, so in
  the topology with input 0, one block and output 1 the output receives identifier 0 and
  the input identifier 1.
\<close>

theorem single_block_ids_counterexample:
  "map_option (map_sum id node_to_id)
     (build_network 2 single_block_topology (init_model [0] [1])) =
   Some (Inr [(1, 0), (0, 1)])"
  by code_simp

text \<open>
  Claim C4, amended. For the topology consisting of a single input node connected by a
  single block to a single output node, resolution yields \<^verbatim>\<open>node_to_id\<close> mapping the
  output node to identifier 0 and the input node to identifier 1, and a block order
  consisting of exactly that one block. More generally, identifiers are dense and follow
  the depth-first post-order of the searches from the inputs: whenever a node on an
  input-to-output path has an edge to another such node, the successor has the smaller
  identifier.
\<close>

theorem single_block_ids_postorder:
  "(a \<noteq> t \<and> inputs self = [a] \<and> outputs self = [t] \<and> out_hypermodels T a = [b] \<and>
    out_hypermodels T t = [] \<and> hm_inputs T b = [a] \<and> hm_outputs T b = [t] \<and>
    in_hypermodels T t = [b] \<longrightarrow>
      (\<exists>s. build_network (Suc (Suc fuel)) T self = Some (Inr s) \<and>
           node_to_id s = [(t, 0), (a, 1)] \<and> hypermodels s = [b])) \<and>
   (build_network fuel T self = Some (Inr s) \<longrightarrow>
      map snd (node_to_id s) = [0..<length (node_to_id s)] \<and>
      ((n, i) \<in> set (node_to_id s) \<longrightarrow> (m, j) \<in> set (node_to_id s) \<longrightarrow>
       n \<in> on_path T (inputs self) (outputs self) \<longrightarrow>
       m \<in> on_path T (inputs self) (outputs self) \<longrightarrow>
       (n, m) \<in> edges T \<longrightarrow> j < i))"
  using single_block_resolution_aux [of a t self T b fuel]
    ids_order_after_resolution [of fuel T self s n i m j]
    ids_dense_after_resolution [of fuel T self s]
  by blast

theorem single_block_ids_postorder_witness:
  "\<exists>s. build_network (Suc (Suc 0)) single_block_topology (init_model [0] [1]) = Some (Inr s) \<and>
       node_to_id s = [(1, 0), (0, 1)] \<and> hypermodels s = [10] \<and>
       (0, 1) \<in> set (node_to_id s) \<and> (1, 0) \<in> set (node_to_id s) \<and>
       0 \<in> on_path single_block_topology (inputs (init_model [0] [1])) (outputs (init_model [0] [1])) \<and>
       1 \<in> on_path single_block_topology (inputs (init_model [0] [1])) (outputs (init_model [0] [1])) \<and>
       (0, 1) \<in> edges single_block_topology \<and> (0::nat) < 1"
proof -
  let ?T = single_block_topology and ?M = "init_model [0] [1]"
  have pre: "(0::nat) \<noteq> 1 \<and> inputs ?M = [0] \<and> outputs ?M = [1] \<and> out_hypermodels ?T 0 = [10] \<and>
    out_hypermodels ?T 1 = [] \<and> hm_inputs ?T 10 = [0] \<and> hm_outputs ?T 10 = [1] \<and>
    in_hypermodels ?T 1 = [10]"
    by (simp add: single_block_topology_def make_topology_def init_model_def)
  from single_block_ids_postorder [where a = 0 and t = 1 and self = ?M and T = ?T and b = 10
      and fuel = 0, THEN conjunct1] pre
  obtain s where s: "build_network (Suc (Suc 0)) ?T ?M = Some (Inr s)"
    and ids: "node_to_id s = [(1, 0), (0, 1)]" and hs: "hypermodels s = [10]"
    by blast
  have e: "(0, 1) \<in> edges ?T"
    by (rule edgeI [of 10]) (simp_all add: single_block_topology_def make_topology_def)
  have p0: "0 \<in> on_path ?T (inputs ?M) (outputs ?M)"
    using e by (auto simp: on_path_def reachable_from_def leads_to_def init_model_def)
  have p1: "1 \<in> on_path ?T (inputs ?M) (outputs ?M)"
    using e by (auto simp: on_path_def reachable_from_def leads_to_def init_model_def)
  have m0: "(0, 1) \<in> set (node_to_id s)" and m1: "(1, 0) \<in> set (node_to_id s)"
    by (simp_all add: ids)
  from single_block_ids_postorder [where self = ?M and T = ?T and fuel = "Suc (Suc 0)"
      and s = s and n = 0 and i = 1 and m = 1 and j = 0, THEN conjunct2] s m0 m1 p0 p1 e
  have "(0::nat) < 1"
    by blast
  with s ids hs m0 m1 p0 p1 e show ?thesis by blast
qed

text \<open>
  Claim C1 fails on the code. In the acyclic topology with a skip connection (input 0,
  block 10 to node 1, block 11 to node 2, and the merging block 12 from nodes 0 and 2 to
  the declared output 3) \<^verbatim>\<open>_build_network\<close> returns the block order 10, 12, 11: block
  12 comes before block 11, which produces its input node 2.
\<close>

theorem skip_connection_block_order:
  "map_option (map_sum id hypermodels) (build_network 4 skip_topology (init_model [0] [3])) =
     Some (Inr [10, 12, 11]) \<and>
   2 \<in> set (hm_inputs skip_topology 12) \<and> 2 \<in> set (hm_outputs skip_topology 11) \<and>
   3 \<in> reachable_from skip_topology [0] \<and>
   (\<forall>c \<in> reachable_from skip_topology [0]. (c, c) \<notin> (edges skip_topology)\<^sup>+)"
proof -
  have r: "map_option (map_sum id hypermodels)
             (build_network 4 skip_topology (init_model [0] [3])) = Some (Inr [10, 12, 11])"
    by code_simp
  have d: "search_inputs 4 skip_topology [0] [3] = Some (Inr [(3, 0), (2, 1), (1, 2), (0, 3)])"
    by code_simp
  have "(0, 3) \<in> edges skip_topology"
    by (rule edgeI [of 12]) (simp_all add: skip_topology_def make_topology_def)
  then have "3 \<in> reachable_from skip_topology [0]"
    by (auto simp: reachable_from_def)
  with r acyclic_if_search_returns [OF d] show ?thesis
    by (simp add: skip_topology_def make_topology_def)
qed

theorem skip_connection_block_order_witness:
  "map_option (map_sum id hypermodels) (build_network 4 skip_topology (init_model [0] [3])) \<noteq>
     Some (Inr [10, 11, 12])"
proof
  assume "map_option (map_sum id hypermodels)
            (build_network 4 skip_topology (init_model [0] [3])) = Some (Inr [10, 11, 12])"
  with skip_connection_block_order [THEN conjunct1]
  have "Some (Inr [10, 12, 11]) = (Some (Inr [10, 11, 12]) :: (error + hypermodel list) option)"
    by (rule trans [OF sym])
  then show False by simp
qed

text \<open>
  Claim C7 fails on the code for the same topology: with the block order 10, 12, 11 that
  resolution returns, \<^verbatim>\<open>build\<close> invokes block 10, then fails to look up the concrete
  representation of node 2 among the inputs of block 12 and raises \<^verbatim>\<open>KeyError\<close>;
  blocks 12 and 11 are never invoked.
\<close>

theorem skip_connection_build_stops:
  "map_option (map_sum id (\<lambda>s. (hypermodels s, build echo_collaborators skip_topology s ())))
     (build_network 4 skip_topology (init_model [0] [3])) =
   Some (Inr ([10, 12, 11], [10], Inl KeyError))"
  by code_simp

theorem skip_connection_build_stops_witness:
  "map_option (map_sum id (\<lambda>s. fst (build echo_collaborators skip_topology s ())))
     (build_network 4 skip_topology (init_model [0] [3])) =
   Some (Inr [10])"
proof -
  from skip_connection_build_stops
  show ?thesis
    by (cases "build_network 4 skip_topology (init_model [0] [3])")
      (auto simp: map_sum_def split: sum.splits)
qed

text \<open>
  Claim C8. Resolution is deterministic and idempotent. What \<^verbatim>\<open>_build_network\<close>
  computes depends only on the declared inputs, the declared outputs and the topology:
  it does not depend on the fuel, nor on what the fields of \<^verbatim>\<open>self\<close> held before.
  Running it again on the state it returned succeeds and yields the same
  \<^verbatim>\<open>node_to_id\<close> and the same block order.
\<close>

theorem resolution_idempotent:
  "(build_network fuel T self = Some (Inr once) \<longrightarrow>
      (\<exists>twice. build_network fuel T once = Some (Inr twice)) \<and>
      (build_network fuelb T once = Some (Inr twice) \<longrightarrow>
         node_to_id twice = node_to_id once \<and> hypermodels twice = hypermodels once)) \<and>
   (inputs self' = inputs self \<and> outputs self' = outputs self \<longrightarrow>
    build_network fuel T self = Some (Inr s) \<longrightarrow>
    build_network fuel' T self' = Some (Inr s') \<longrightarrow>
      node_to_id s' = node_to_id s \<and> hypermodels s' = hypermodels s) \<and>
   (build_network fuel T self = Some r \<longrightarrow> build_network fuel' T self = Some r' \<longrightarrow> r' = r)"
proof -
  have p1: "\<exists>twice. build_network fuel T once = Some (Inr twice)"
    if "build_network fuel T self = Some (Inr once)"
    using that by (rule resolution_repeatable)
  have p2: "node_to_id twice = node_to_id once \<and> hypermodels twice = hypermodels once"
    if r1: "build_network fuel T self = Some (Inr once)"
      and r2: "build_network fuelb T once = Some (Inr twice)"
  proof -
    note d = build_network_declaration [OF r1]
    from same_declaration_same_resolution [OF d r1 r2]
    show ?thesis by (simp add: resolution_of_def)
  qed
  have p3: "node_to_id s' = node_to_id s \<and> hypermodels s' = hypermodels s"
    if "inputs self' = inputs self \<and> outputs self' = outputs self"
      and r: "build_network fuel T self = Some (Inr s)"
      and r': "build_network fuel' T self' = Some (Inr s')"
    using same_declaration_same_resolution [OF _ _ r r'] that(1)
    by (simp add: resolution_of_def)
  have p4: "r' = r"
    if "build_network fuel T self = Some r" and "build_network fuel' T self = Some r'"
    using that by (rule build_network_fuel_independent)
  from p1 p2 p3 p4 show ?thesis by blast
qed

theorem resolution_idempotent_witness:
  "\<exists>s1 s2. build_network 4 skip_topology (init_model [0] [3]) = Some (Inr s1) \<and>
           build_network 4 skip_topology s1 = Some (Inr s2) \<and>
           node_to_id s1 = [(3, 0), (2, 1), (1, 2), (0, 3)] \<and>
           node_to_id s2 = node_to_id s1 \<and> hypermodels s2 = hypermodels s1"
proof -
  let ?T = skip_topology and ?M = "init_model [0] [3]"
  have "map_option (map_sum id node_to_id) (build_network 4 ?T ?M) =
        Some (Inr [(3, 0), (2, 1), (1, 2), (0, 3)])"
    by code_simp
  then obtain s1 where s1: "build_network 4 ?T ?M = Some (Inr s1)"
    and ids: "node_to_id s1 = [(3, 0), (2, 1), (1, 2), (0, 3)]"
    by (cases "build_network 4 ?T ?M") (auto simp: map_sum_def split: sum.splits)
  note th = resolution_idempotent [where fuel = 4 and T = ?T and self = ?M and once = s1
      and fuelb = 4, THEN conjunct1]
  from th s1 obtain s2 where s2: "build_network 4 ?T s1 = Some (Inr s2)"
    by blast
  from resolution_idempotent [where fuel = 4 and T = ?T and self = ?M and once = s1
      and fuelb = 4 and twice = s2, THEN conjunct1] s1 s2
  have "node_to_id s2 = node_to_id s1 \<and> hypermodels s2 = hypermodels s1"
    by blast
  with s1 s2 ids show ?thesis by blast
qed

end
